theory Spec2Isabelle
  imports Main
begin

section \<open>The AABB tree of \<^verbatim>\<open>common/src/AABBTree.h\<close>\<close>

text \<open>
  The class template \<^verbatim>\<open>AABBTree<T,S,U,EQ>\<close> is embedded as functions over an immutable
  tree value. The template parameters are not part of the file: the box type
  \<^verbatim>\<open>BBox<T,S>\<close> (header \<^verbatim>\<open>BBox.h\<close>) with \<^verbatim>\<open>contains\<close>, \<^verbatim>\<open>mergedWith\<close> and
  \<^verbatim>\<open>volume\<close>, the box \<^verbatim>\<open>Box(Vec<T,S>::NaN, Vec<T,S>::NaN)\<close> returned for the empty tree,
  and the payload comparison \<^verbatim>\<open>EQ\<close>. They are taken as parameters, collected in one
  record that every operation receives.
\<close>

record ('b, 'v, 'u) params =
  box_contains :: "'b \<Rightarrow> 'b \<Rightarrow> bool"
  box_mergedWith :: "'b \<Rightarrow> 'b \<Rightarrow> 'b"
  box_volume :: "'b \<Rightarrow> 'v"
  nan_box :: "'b"
  data_eq :: "'u \<Rightarrow> 'u \<Rightarrow> bool"

subsection \<open>Nodes\<close>

text \<open>
  A \<^verbatim>\<open>Node*\<close> that may be \<^verbatim>\<open>nullptr\<close> is a \<open>node option\<close>. A leaf holds its bounds
  and its data; an inner node holds \<^verbatim>\<open>m_bounds\<close>, \<^verbatim>\<open>m_left\<close>, \<^verbatim>\<open>m_right\<close> and the
  cached \<^verbatim>\<open>m_height\<close>. Every node is owned by one slot, so a tree value stands for
  the heap below a pointer; \<^verbatim>\<open>delete\<close> has no counterpart.
\<close>

datatype ('b, 'u) node =
  Leaf 'b 'u
| InnerNode 'b "('b, 'u) node option" "('b, 'u) node option" nat

text \<open>The two child slots of an inner node, for the \<^verbatim>\<open>Node*&\<close> arguments.\<close>

datatype slot = SlotLeft | SlotRight

fun other :: "slot \<Rightarrow> slot" where
  "other SlotLeft = SlotRight"
| "other SlotRight = SlotLeft"

fun get_slot :: "slot \<Rightarrow> ('b, 'u) node \<Rightarrow> ('b, 'u) node option" where
  "get_slot SlotLeft (InnerNode bb l r h) = l"
| "get_slot SlotRight (InnerNode bb l r h) = r"
| "get_slot s (Leaf lb ld) = None"

fun set_slot :: "slot \<Rightarrow> ('b, 'u) node option \<Rightarrow> ('b, 'u) node \<Rightarrow> ('b, 'u) node" where
  "set_slot SlotLeft x (InnerNode bb l r h) = InnerNode bb x r h"
| "set_slot SlotRight x (InnerNode bb l r h) = InnerNode bb l x h"
| "set_slot s x (Leaf lb ld) = Leaf lb ld"

text \<open>
  What a call of \<^verbatim>\<open>remove\<close> on a node returns, seen from the caller that compares it
  with \<^verbatim>\<open>nullptr\<close> and with the receiver: \<^verbatim>\<open>nullptr\<close>, the receiver itself, or a
  node that was held in a child slot of the receiver (hence another object).
\<close>

datatype ('b, 'u) ptr = Nullptr | This | Other "('b, 'u) node"

fun ptr_of :: "('b, 'u) node option \<Rightarrow> ('b, 'u) ptr" where
  "ptr_of None = Nullptr"
| "ptr_of (Some m) = Other m"

text \<open>The value a slot holds after it is assigned the pointer returned for its node.\<close>

fun assigned :: "('b, 'u) node \<Rightarrow> ('b, 'u) ptr \<Rightarrow> ('b, 'u) node option" where
  "assigned n Nullptr = None"
| "assigned n This = Some n"
| "assigned n (Other m) = Some m"

subsection \<open>Outcomes\<close>

text \<open>
  A call either runs out of fuel (\<open>None\<close>), stops at a fault, or returns. Faults are
  the dereference of a null child pointer, and a failed \<^verbatim>\<open>assert\<close> in a build
  that keeps assertions.
\<close>

datatype fault = NullDereference | AssertionFailure

type_synonym 'a outcome = "(fault + 'a) option"

definition ok :: "'a \<Rightarrow> 'a outcome" where
  "ok x = Some (Inr x)"

definition fail :: "fault \<Rightarrow> 'a outcome" where
  "fail e = Some (Inl e)"

definition bindR :: "'a outcome \<Rightarrow> ('a \<Rightarrow> 'b outcome) \<Rightarrow> 'b outcome" where
  "bindR m f = (case m of None \<Rightarrow> None | Some (Inl e) \<Rightarrow> Some (Inl e) | Some (Inr x) \<Rightarrow> f x)"

definition deref :: "'n option \<Rightarrow> 'n outcome" where
  "deref p = (case p of None \<Rightarrow> fail NullDereference | Some n \<Rightarrow> ok n)"

subsection \<open>Node members\<close>

fun bounds :: "('b, 'u) node \<Rightarrow> 'b" where
  "bounds (Leaf lb ld) = lb"
| "bounds (InnerNode bb l r h) = bb"

fun height :: "('b, 'u) node \<Rightarrow> nat" where
  "height (Leaf lb ld) = 1"
| "height (InnerNode bb l r h) = h"

fun balance :: "('b, 'u) node \<Rightarrow> int outcome" where
  "balance (Leaf lb ld) = ok 0"
| "balance (InnerNode bb l r h) =
     bindR (deref l) (\<lambda>ln. bindR (deref r) (\<lambda>rn.
       ok (int (height rn) - int (height ln))))"

text \<open>The constructor \<^verbatim>\<open>InnerNode(left, right)\<close>.\<close>

definition newInnerNode ::
  "('b, 'v, 'u) params \<Rightarrow> ('b, 'u) node \<Rightarrow> ('b, 'u) node \<Rightarrow> ('b, 'u) node" where
  "newInnerNode P l r =
     InnerNode (box_mergedWith P (bounds l) (bounds r)) (Some l) (Some r)
       (max (height l) (height r) + 1)"

text \<open>
  \<^verbatim>\<open>selectLeastIncreaser<TT>\<close>: \<open>bnd\<close> reads the bounds of a \<^verbatim>\<open>TT\<close>; the result is
  the first or the second argument.
\<close>

definition selectLeastIncreaser ::
  "('b, 'v::{ord,minus}, 'u) params \<Rightarrow> ('x \<Rightarrow> 'b) \<Rightarrow> 'x \<Rightarrow> 'x \<Rightarrow> 'b \<Rightarrow> 'x" where
  "selectLeastIncreaser P bnd node1 node2 b =
     (let new1 = box_mergedWith P (bnd node1) b;
          new2 = box_mergedWith P (bnd node2) b;
          vol1 = box_volume P (bnd node1);
          vol2 = box_volume P (bnd node2);
          diff1 = box_volume P new1 - vol1;
          diff2 = box_volume P new2 - vol2
      in if diff1 \<le> diff2 then node1 else node2)"

fun updateBounds :: "('b, 'v, 'u) params \<Rightarrow> ('b, 'u) node \<Rightarrow> ('b, 'u) node outcome" where
  "updateBounds P (InnerNode bb l r h) =
     bindR (deref l) (\<lambda>ln. bindR (deref r) (\<lambda>rn.
       ok (InnerNode (box_mergedWith P (bounds ln) (bounds rn)) l r h)))"

fun updateHeight :: "('b, 'u) node \<Rightarrow> ('b, 'u) node outcome" where
  "updateHeight (InnerNode bb l r h) =
     bindR (deref l) (\<lambda>ln. bindR (deref r) (\<lambda>rn.
       ok (InnerNode bb l r (max (height ln) (height rn) + 1))))"

text \<open>
  \<^verbatim>\<open>findRebalanceCandidate\<close> returns a \<^verbatim>\<open>Leaf*\<close> of which the caller reads the bounds
  and the data: the result is that pair.
\<close>

fun findRebalanceCandidate ::
  "('b, 'v::{ord,minus}, 'u) params \<Rightarrow> ('b, 'u) node \<Rightarrow> 'b \<Rightarrow> fault + ('b \<times> 'u)" where
  "findRebalanceCandidate P (Leaf lb ld) b = Inr (lb, ld)"
| "findRebalanceCandidate P (InnerNode bb None r h) b = Inl NullDereference"
| "findRebalanceCandidate P (InnerNode bb (Some ln) None h) b =
     (case findRebalanceCandidate P ln b of Inl e \<Rightarrow> Inl e | Inr c \<Rightarrow> Inl NullDereference)"
| "findRebalanceCandidate P (InnerNode bb (Some ln) (Some rn) h) b =
     (case findRebalanceCandidate P ln b of
        Inl e \<Rightarrow> Inl e
      | Inr leftCandidate \<Rightarrow>
          (case findRebalanceCandidate P rn b of
             Inl e \<Rightarrow> Inl e
           | Inr rightCandidate \<Rightarrow>
               Inr (selectLeastIncreaser P fst leftCandidate rightCandidate b)))"

subsection \<open>Insertion, removal and rebalancing\<close>

text \<open>
  The five functions call each other; the first argument bounds the depth of
  the calls, and every call passes on one less. \<open>node_insert\<close> is \<^verbatim>\<open>Node::insert\<close>
  and returns the node that the returned pointer refers to. \<open>node_remove\<close> is
  \<^verbatim>\<open>Node::remove\<close> and returns the state of the receiver after the call together
  with the returned pointer. \<open>doRemove\<close> gets the slot that is \<^verbatim>\<open>child\<close>;
  \<^verbatim>\<open>sibling\<close> is the other one. \<open>rebalance\<close> is \<^verbatim>\<open>rebalance()\<close>, and
  \<open>rebalance_into\<close> is \<^verbatim>\<open>rebalance(higher, lower)\<close> and gets the slot that is
  \<^verbatim>\<open>higher\<close>.

  In \<open>doRemove\<close> the three cases of \<open>newChild\<close> are the tests of the source:
  \<^verbatim>\<open>newChild == nullptr\<close>, then \<^verbatim>\<open>newChild != child\<close>, and what is left, where the
  child returned itself and \<^verbatim>\<open>result\<close> stays \<^verbatim>\<open>nullptr\<close>. A child that returned
  itself may have been changed in place, so its new state is stored in the
  slot. In \<open>rebalance_into\<close> the slot \<^verbatim>\<open>higher\<close> is assigned whatever
  \<^verbatim>\<open>higher->remove\<close> returned, \<^verbatim>\<open>nullptr\<close> included.
\<close>

function (sequential) node_insert ::
    "nat \<Rightarrow> ('b, 'v::{ord,minus}, 'u) params \<Rightarrow> ('b, 'u) node \<Rightarrow> 'b \<Rightarrow> 'u
       \<Rightarrow> ('b, 'u) node outcome"
  and node_remove ::
    "nat \<Rightarrow> ('b, 'v, 'u) params \<Rightarrow> ('b, 'u) node \<Rightarrow> 'b \<Rightarrow> 'u
       \<Rightarrow> (('b, 'u) node \<times> ('b, 'u) ptr) outcome"
  and doRemove ::
    "nat \<Rightarrow> ('b, 'v, 'u) params \<Rightarrow> ('b, 'u) node \<Rightarrow> 'b \<Rightarrow> 'u \<Rightarrow> slot
       \<Rightarrow> (('b, 'u) node \<times> ('b, 'u) ptr) outcome"
  and rebalance ::
    "nat \<Rightarrow> ('b, 'v, 'u) params \<Rightarrow> ('b, 'u) node \<Rightarrow> ('b, 'u) node outcome"
  and rebalance_into ::
    "nat \<Rightarrow> ('b, 'v, 'u) params \<Rightarrow> slot \<Rightarrow> ('b, 'u) node \<Rightarrow> ('b, 'u) node outcome"
where
  "node_insert 0 P n b d = None"
| "node_insert (Suc k) P (Leaf lb ld) b d = ok (newInnerNode P (Leaf lb ld) (Leaf b d))"
| "node_insert (Suc k) P (InnerNode bb l r h) b d =
     bindR (deref l) (\<lambda>ln. bindR (deref r) (\<lambda>rn.
       let subtree = selectLeastIncreaser P (\<lambda>x. bounds (snd x))
                       (SlotLeft, ln) (SlotRight, rn) b
       in bindR (node_insert k P (snd subtree) b d) (\<lambda>sn.
          bindR (updateBounds P (set_slot (fst subtree) (Some sn) (InnerNode bb l r h))) (\<lambda>n1.
          bindR (updateHeight n1) (\<lambda>n2.
          rebalance k P n2)))))"
| "node_remove 0 P n b d = None"
| "node_remove (Suc k) P (Leaf lb ld) b d =
     (if data_eq P d ld then ok (Leaf lb ld, Nullptr) else ok (Leaf lb ld, This))"
| "node_remove (Suc k) P (InnerNode bb l r h) b d =
     bindR (doRemove k P (InnerNode bb l r h) b d SlotLeft) (\<lambda>(n1, result).
       if result \<noteq> Nullptr then ok (n1, result)
       else doRemove k P n1 b d SlotRight)"
| "doRemove 0 P n b d child = None"
| "doRemove (Suc k) P n b d child =
     bindR (deref (get_slot child n)) (\<lambda>cn.
       if box_contains P (bounds cn) b then
         bindR (node_remove k P cn b d) (\<lambda>(cn', newChild).
           case newChild of
             Nullptr \<Rightarrow>
               ok (set_slot (other child) None (set_slot child (Some cn') n),
                   ptr_of (get_slot (other child) n))
           | Other m \<Rightarrow>
               bindR (updateBounds P (set_slot child (Some m) n)) (\<lambda>n1.
               bindR (updateHeight n1) (\<lambda>n2.
               bindR (rebalance k P n2) (\<lambda>n3.
               ok (n3, This))))
           | This \<Rightarrow> ok (set_slot child (Some cn') n, Nullptr))
       else ok (n, Nullptr))"
| "rebalance 0 P n = None"
| "rebalance (Suc k) P n =
     bindR (deref (get_slot SlotLeft n)) (\<lambda>ln. bindR (deref (get_slot SlotRight n)) (\<lambda>rn.
       if height ln > height rn \<and> height ln - height rn > 1 then
         rebalance_into k P SlotLeft n
       else if height rn > height ln \<and> height rn - height ln > 1 then
         rebalance_into k P SlotRight n
       else ok n))"
| "rebalance_into 0 P higher n = None"
| "rebalance_into (Suc k) P higher n =
     bindR (deref (get_slot (other higher) n)) (\<lambda>lo.
     bindR (deref (get_slot higher n)) (\<lambda>hi.
     bindR (Some (findRebalanceCandidate P hi (bounds lo))) (\<lambda>toRemove.
     bindR (node_remove k P hi (fst toRemove) (snd toRemove)) (\<lambda>(hi', newHigher).
       let n1 = set_slot higher (assigned hi' newHigher) n
       in bindR (node_insert k P lo (fst toRemove) (snd toRemove)) (\<lambda>lo'.
          ok (set_slot (other higher) (Some lo') n1))))))"
  by pat_completeness auto

termination
  by (relation "measure (\<lambda>x. case x of
        Inl (Inl a) \<Rightarrow> fst a
      | Inl (Inr a) \<Rightarrow> fst a
      | Inr (Inl a) \<Rightarrow> fst a
      | Inr (Inr (Inl a)) \<Rightarrow> fst a
      | Inr (Inr (Inr a)) \<Rightarrow> fst a)") auto

subsection \<open>The tree\<close>

text \<open>
  The tree is its \<^verbatim>\<open>m_root\<close>. \<open>dbg\<close> tells whether the build keeps the
  \<^verbatim>\<open>assert\<close>s (no \<^verbatim>\<open>NDEBUG\<close>).
\<close>

type_synonym ('b, 'u) tree = "('b, 'u) node option"

text \<open>The constructor \<^verbatim>\<open>AABBTree() : m_root(nullptr)\<close>.\<close>

definition AABBTree :: "('b, 'u) tree" where
  "AABBTree = None"

definition empty :: "('b, 'u) tree \<Rightarrow> bool" where
  "empty t = (t = None)"

definition assert_balance :: "bool \<Rightarrow> ('b, 'u) tree \<Rightarrow> 'a \<Rightarrow> 'a outcome" where
  "assert_balance dbg t x =
     (if dbg then
        (case t of
           None \<Rightarrow> ok x
         | Some r \<Rightarrow> bindR (balance r) (\<lambda>bal. if \<bar>bal\<bar> < 2 then ok x else fail AssertionFailure))
      else ok x)"

definition tree_insert ::
  "nat \<Rightarrow> bool \<Rightarrow> ('b, 'v::{ord,minus}, 'u) params \<Rightarrow> ('b, 'u) tree \<Rightarrow> 'b \<Rightarrow> 'u
     \<Rightarrow> ('b, 'u) tree outcome" where
  "tree_insert k dbg P t b d =
     bindR (case t of None \<Rightarrow> ok (Leaf b d) | Some r \<Rightarrow> node_insert k P r b d) (\<lambda>r'.
       assert_balance dbg (Some r') (Some r'))"

definition tree_remove ::
  "nat \<Rightarrow> bool \<Rightarrow> ('b, 'v::{ord,minus}, 'u) params \<Rightarrow> ('b, 'u) tree \<Rightarrow> 'b \<Rightarrow> 'u
     \<Rightarrow> (bool \<times> ('b, 'u) tree) outcome" where
  "tree_remove k dbg P t b d =
     (case t of
        None \<Rightarrow> ok (False, None)
      | Some r \<Rightarrow>
          if box_contains P (bounds r) b then
            bindR (node_remove k P r b d) (\<lambda>(r', newRoot).
              assert_balance dbg (assigned r' newRoot) (True, assigned r' newRoot))
          else ok (False, Some r))"

definition tree_height :: "('b, 'u) tree \<Rightarrow> nat" where
  "tree_height t = (case t of None \<Rightarrow> 0 | Some r \<Rightarrow> height r)"

definition tree_bounds :: "bool \<Rightarrow> ('b, 'v, 'u) params \<Rightarrow> ('b, 'u) tree \<Rightarrow> fault + 'b" where
  "tree_bounds dbg P t =
     (if dbg \<and> empty t then Inl AssertionFailure
      else (case t of None \<Rightarrow> Inr (nan_box P) | Some r \<Rightarrow> Inr (bounds r)))"

subsection \<open>The invariants of the data model\<close>

text \<open>
  I1: the bounds of an inner node is the merge of the bounds of its children.
  I2: the cached height of an inner node is one more than the larger height of
  its children, as \<^verbatim>\<open>height()\<close> reports them. I3: the heights of the children of
  an inner node differ by at most one, which is \<^verbatim>\<open>|balance()| < 2\<close>. An inner node
  with a null child satisfies none of them.
\<close>

fun bounds_correct :: "('b, 'v, 'u) params \<Rightarrow> ('b, 'u) node \<Rightarrow> bool" where
  "bounds_correct P (Leaf lb ld) = True"
| "bounds_correct P (InnerNode bb (Some l) (Some r) h) =
     (bb = box_mergedWith P (bounds l) (bounds r) \<and> bounds_correct P l \<and> bounds_correct P r)"
| "bounds_correct P (InnerNode bb l r h) = False"

fun height_correct :: "('b, 'u) node \<Rightarrow> bool" where
  "height_correct (Leaf lb ld) = True"
| "height_correct (InnerNode bb (Some l) (Some r) h) =
     (h = 1 + max (height l) (height r) \<and> height_correct l \<and> height_correct r)"
| "height_correct (InnerNode bb l r h) = False"

fun balance_bound :: "('b, 'u) node \<Rightarrow> bool" where
  "balance_bound (Leaf lb ld) = True"
| "balance_bound (InnerNode bb (Some l) (Some r) h) =
     (\<bar>int (height r) - int (height l)\<bar> \<le> 1 \<and> balance_bound l \<and> balance_bound r)"
| "balance_bound (InnerNode bb l r h) = False"

text \<open>The leaves of a tree, from left to right, as pairs of box and payload.\<close>

fun leaves :: "('b, 'u) node \<Rightarrow> ('b \<times> 'u) list"
  and leaves_opt :: "('b, 'u) node option \<Rightarrow> ('b \<times> 'u) list" where
  "leaves (Leaf lb ld) = [(lb, ld)]"
| "leaves (InnerNode bb l r h) = leaves_opt l @ leaves_opt r"
| "leaves_opt None = []"
| "leaves_opt (Some n) = leaves n"

subsection \<open>Sequences of public operations\<close>

datatype ('b, 'u) operation = Insert 'b 'u | Remove 'b 'u

text \<open>
  A caller that starts from a tree and performs the operations in order; the
  boolean of a \<^verbatim>\<open>remove\<close> is dropped. Each operation gets the fuel \<open>k\<close>.
\<close>

fun run_ops ::
  "nat \<Rightarrow> bool \<Rightarrow> ('b, 'v::{ord,minus}, 'u) params \<Rightarrow> ('b, 'u) operation list
     \<Rightarrow> ('b, 'u) tree \<Rightarrow> ('b, 'u) tree outcome" where
  "run_ops k dbg P [] t = ok t"
| "run_ops k dbg P (Insert b d # ops) t =
     bindR (tree_insert k dbg P t b d) (\<lambda>t'. run_ops k dbg P ops t')"
| "run_ops k dbg P (Remove b d # ops) t =
     bindR (tree_remove k dbg P t b d) (\<lambda>(found, t'). run_ops k dbg P ops t')"

subsection \<open>One-dimensional boxes\<close>

text \<open>
  Modelled from the spec: \<^verbatim>\<open>BBox<T,1>\<close>, which is not part of the file, for integer
  coordinates. A box is its pair of corners \<open>(min, max)\<close>; \<open>contains\<close> is
  non-strict enclosure, \<open>mergedWith\<close> the smallest box that encloses both,
  \<open>volume\<close> the extent. The payload comparison is \<^verbatim>\<open>std::equal_to<U>\<close>. The box of
  the empty tree has no integer counterpart and stays a parameter.
\<close>

definition box1 :: "(int \<times> int) \<Rightarrow> ((int \<times> int), int, 'u) params" where
  "box1 nb =
     \<lparr> box_contains = (\<lambda>a b. fst a \<le> fst b \<and> snd b \<le> snd a),
       box_mergedWith = (\<lambda>a b. (min (fst a) (fst b), max (snd a) (snd b))),
       box_volume = (\<lambda>a. snd a - fst a),
       nan_box = nb,
       data_eq = (\<lambda>x y. x = y) \<rparr>"

subsection \<open>The volume increase\<close>

text \<open>
  The \<^verbatim>\<open>diff1\<close> and \<^verbatim>\<open>diff2\<close> of \<^verbatim>\<open>selectLeastIncreaser\<close> for a node: by how much
  the volume of its bounds grows when the box \<open>b\<close> is merged into them.
\<close>

definition volume_increase ::
  "('b, 'v::{ord,minus}, 'u) params \<Rightarrow> ('b, 'u) node \<Rightarrow> 'b \<Rightarrow> 'v" where
  "volume_increase P c b =
     box_volume P (box_mergedWith P (bounds c) b) - box_volume P (bounds c)"

subsection \<open>Measures for the termination argument\<close>

text \<open>The number of nodes below a pointer; a null pointer counts zero.\<close>

fun nsize :: "('b, 'u) node \<Rightarrow> nat"
  and osize :: "('b, 'u) node option \<Rightarrow> nat" where
  "nsize (Leaf lb ld) = 1"
| "nsize (InnerNode bb l r h) = 1 + osize l + osize r"
| "osize None = 0"
| "osize (Some n) = nsize n"

fun is_leaf :: "('b, 'u) node \<Rightarrow> bool" where
  "is_leaf (Leaf lb ld) = True"
| "is_leaf (InnerNode bb l r h) = False"

text \<open>
  What a returning \<open>node_remove\<close> and \<open>doRemove\<close> guarantee about sizes: the
  receiver does not grow; an inner node that returns itself has lost two nodes
  at least, and a node returned in its place is smaller by two at least.
\<close>

definition remove_post :: "('b, 'u) node \<Rightarrow> ('b, 'u) node \<Rightarrow> ('b, 'u) ptr \<Rightarrow> bool" where
  "remove_post n n' p =
     (nsize n' \<le> nsize n \<and>
      (p = This \<and> \<not> is_leaf n \<longrightarrow> nsize n' + 2 \<le> nsize n) \<and>
      (\<forall>m. p = Other m \<longrightarrow> nsize m + 2 \<le> nsize n))"

definition doRemove_post :: "('b, 'u) node \<Rightarrow> ('b, 'u) node \<Rightarrow> ('b, 'u) ptr \<Rightarrow> bool" where
  "doRemove_post n n' p =
     (nsize n' \<le> nsize n \<and>
      (p = This \<longrightarrow> nsize n' + 2 \<le> nsize n) \<and>
      (\<forall>m. p = Other m \<longrightarrow> nsize m + 2 \<le> nsize n))"

text \<open>
  A computation that takes fuel settles when from some fuel on it has one and the
  same outcome: it terminates, there with a value or a fault.
\<close>

definition settles :: "(nat \<Rightarrow> 'a outcome) \<Rightarrow> bool" where
  "settles M = (\<exists>k y. \<forall>j. M (k + j) = Some y)"

text \<open>
  The outcome \<open>b\<close> extends the outcome \<open>a\<close>: \<open>a\<close> ran out of fuel, or they are the
  same.
\<close>

definition le_out :: "'a outcome \<Rightarrow> 'a outcome \<Rightarrow> bool" where
  "le_out a b = (a = None \<or> a = b)"

section \<open>Basic facts\<close>

lemma bindR_ok: "bindR (ok x) f = f x"
  by (simp add: bindR_def ok_def)

lemma bindR_fail: "bindR (fail e) f = fail e"
  by (simp add: bindR_def fail_def)

lemma deref_Some: "deref (Some n) = ok n"
  by (simp add: deref_def)

lemma deref_None: "deref None = fail NullDereference"
  by (simp add: deref_def)

lemmas run_simps =
  eval_nat_numeral tree_insert_def tree_remove_def assert_balance_def box1_def ok_def fail_def
  bindR_def deref_def newInnerNode_def selectLeastIncreaser_def Let_def AABBTree_def
  tree_height_def tree_bounds_def empty_def

section \<open>More fuel\<close>

text \<open>An outcome that is there with some fuel is there, the same, with more.\<close>

lemma le_out_refl: "le_out a a"
  by (simp add: le_out_def)

lemma le_out_None: "le_out None a"
  by (simp add: le_out_def)

lemma le_out_bind:
  "le_out m m' \<Longrightarrow> (\<And>x. le_out (f x) (f' x)) \<Longrightarrow> le_out (bindR m f) (bindR m' f')"
  by (auto simp add: le_out_def bindR_def split: option.splits sum.splits)

lemma le_out_if:
  "(c \<Longrightarrow> le_out a a') \<Longrightarrow> (\<not> c \<Longrightarrow> le_out b b') \<Longrightarrow>
   le_out (if c then a else b) (if c then a' else b')"
  by simp

lemma le_out_prod:
  "(\<And>a b. le_out (f a b) (g a b)) \<Longrightarrow> le_out (case x of (a, b) \<Rightarrow> f a b) (case x of (a, b) \<Rightarrow> g a b)"
  by (cases x) simp

lemma le_out_ptr:
  "le_out a a' \<Longrightarrow> le_out b b' \<Longrightarrow> (\<And>m. le_out (f m) (f' m)) \<Longrightarrow>
   le_out (case q of Nullptr \<Rightarrow> a | This \<Rightarrow> b | Other m \<Rightarrow> f m)
          (case q of Nullptr \<Rightarrow> a' | This \<Rightarrow> b' | Other m \<Rightarrow> f' m)"
  by (cases q) simp_all

lemma fuel_step:
  fixes P :: "('b, 'v::{ord,minus}, 'u) params"
  shows
  "(\<forall>n b d. le_out (node_insert k P n b d) (node_insert (Suc k) P n b d)) \<and>
   (\<forall>n b d. le_out (node_remove k P n b d) (node_remove (Suc k) P n b d)) \<and>
   (\<forall>n b d s. le_out (doRemove k P n b d s) (doRemove (Suc k) P n b d s)) \<and>
   (\<forall>n. le_out (rebalance k P n) (rebalance (Suc k) P n)) \<and>
   (\<forall>hs n. le_out (rebalance_into k P hs n) (rebalance_into (Suc k) P hs n))"
proof (induction k)
  case 0
  show ?case by (simp add: le_out_None)
next
  case (Suc k)
  note IH = Suc
  have ins: "le_out (node_insert k P n b d) (node_insert (Suc k) P n b d)" for n b d
    using IH by simp
  have rem: "le_out (node_remove k P n b d) (node_remove (Suc k) P n b d)" for n b d
    using IH by simp
  have dor: "le_out (doRemove k P n b d s) (doRemove (Suc k) P n b d s)" for n b d s
    using IH by simp
  have reb: "le_out (rebalance k P n) (rebalance (Suc k) P n)" for n
    using IH by simp
  have rbi: "le_out (rebalance_into k P hs n) (rebalance_into (Suc k) P hs n)" for hs n
    using IH by simp
  have A1: "le_out (node_insert (Suc k) P n b d) (node_insert (Suc (Suc k)) P n b d)" for n b d
  proof (cases n)
    case (Leaf lb ld)
    then show ?thesis by (simp add: le_out_refl)
  next
    case (InnerNode bb l r h)
    show ?thesis
      unfolding InnerNode node_insert.simps Let_def
      by (intro le_out_bind le_out_refl ins reb)
  qed
  have A2: "le_out (node_remove (Suc k) P n b d) (node_remove (Suc (Suc k)) P n b d)" for n b d
  proof (cases n)
    case (Leaf lb ld)
    then show ?thesis by (simp add: le_out_refl)
  next
    case (InnerNode bb l r h)
    show ?thesis
      unfolding InnerNode node_remove.simps
      by (intro le_out_bind le_out_prod le_out_if le_out_refl dor)
  qed
  have A3: "le_out (doRemove (Suc k) P n b d s) (doRemove (Suc (Suc k)) P n b d s)" for n b d s
    unfolding doRemove.simps
    by (intro le_out_bind le_out_prod le_out_ptr le_out_if le_out_refl rem reb)
  have A4: "le_out (rebalance (Suc k) P n) (rebalance (Suc (Suc k)) P n)" for n
    unfolding rebalance.simps
    by (intro le_out_bind le_out_if le_out_refl rbi)
  have A5: "le_out (rebalance_into (Suc k) P hs n) (rebalance_into (Suc (Suc k)) P hs n)" for hs n
    unfolding rebalance_into.simps Let_def
    by (intro le_out_bind le_out_prod le_out_refl rem ins)
  from A1 A2 A3 A4 A5 show ?case by blast
qed


lemma le_out_trans: "le_out a b \<Longrightarrow> le_out b c \<Longrightarrow> le_out a c"
  by (auto simp add: le_out_def)

lemma le_out_Some: "le_out a b \<Longrightarrow> a = Some y \<Longrightarrow> b = Some y"
  by (auto simp add: le_out_def)

lemma node_insert_fuel:
  fixes P :: "('b, 'v::{ord,minus}, 'u) params"
  shows "le_out (node_insert k P n b d) (node_insert (k + j) P n b d)"
proof (induction j)
  case 0
  show ?case by (simp add: le_out_refl)
next
  case (Suc j)
  from fuel_step [of "k + j" P] have "le_out (node_insert (k + j) P n b d) (node_insert (Suc (k + j)) P n b d)"
    by simp
  with Suc show ?case by (simp add: le_out_trans)
qed

lemma node_remove_fuel:
  fixes P :: "('b, 'v::{ord,minus}, 'u) params"
  shows "le_out (node_remove k P n b d) (node_remove (k + j) P n b d)"
proof (induction j)
  case 0
  show ?case by (simp add: le_out_refl)
next
  case (Suc j)
  from fuel_step [of "k + j" P] have "le_out (node_remove (k + j) P n b d) (node_remove (Suc (k + j)) P n b d)"
    by simp
  with Suc show ?case by (simp add: le_out_trans)
qed

lemma tree_insert_fuel:
  fixes P :: "('b, 'v::{ord,minus}, 'u) params"
  shows "le_out (tree_insert k dbg P t b d) (tree_insert (k + j) dbg P t b d)"
  unfolding tree_insert_def
  by (cases t) (simp_all add: le_out_bind le_out_refl node_insert_fuel)

lemma tree_remove_fuel:
  fixes P :: "('b, 'v::{ord,minus}, 'u) params"
  shows "le_out (tree_remove k dbg P t b d) (tree_remove (k + j) dbg P t b d)"
  unfolding tree_remove_def
  by (cases t) (simp_all add: le_out_bind le_out_refl node_remove_fuel)

lemma run_ops_fuel:
  fixes P :: "('b, 'v::{ord,minus}, 'u) params"
  shows "le_out (run_ops k dbg P ops t) (run_ops (k + j) dbg P ops t)"
proof (induction ops arbitrary: t)
  case Nil
  show ?case by (simp add: le_out_refl)
next
  case (Cons x ops)
  show ?case
  proof (cases x)
    case (Insert b d)
    with Cons show ?thesis
      by (simp add: le_out_bind tree_insert_fuel)
  next
    case (Remove b d)
    with Cons show ?thesis
      by (simp add: le_out_bind le_out_prod tree_remove_fuel)
  qed
qed

lemma run_ops_more_fuel:
  fixes P :: "('b, 'v::{ord,minus}, 'u) params"
  shows "run_ops k dbg P ops t = Some y \<Longrightarrow> run_ops (k + j) dbg P ops t = Some y"
  using run_ops_fuel [of k dbg P ops t j] by (rule le_out_Some)

lemma tree_remove_more_fuel:
  fixes P :: "('b, 'v::{ord,minus}, 'u) params"
  shows "tree_remove k dbg P t b d = Some y \<Longrightarrow> tree_remove (k + j) dbg P t b d = Some y"
  using tree_remove_fuel [of k dbg P t b d j] by (rule le_out_Some)

lemma tree_insert_more_fuel:
  fixes P :: "('b, 'v::{ord,minus}, 'u) params"
  shows "tree_insert k dbg P t b d = Some y \<Longrightarrow> tree_insert (k + j) dbg P t b d = Some y"
  using tree_insert_fuel [of k dbg P t b d j] by (rule le_out_Some)


section \<open>Termination\<close>

text \<open>
  \<^verbatim>\<open>insert\<close> and \<^verbatim>\<open>remove\<close> call each other through \<^verbatim>\<open>rebalance\<close> on nodes that are
  results of earlier calls. They terminate on every tree, also on one with null
  children or wrong cached heights: the number of nodes decreases along the
  calls, with \<^verbatim>\<open>remove\<close> below \<^verbatim>\<open>insert\<close> on equal size.
\<close>

lemma nsize_pos: "0 < nsize n"
  by (cases n) simp_all

lemma ok_neq [simp]: "ok x \<noteq> None" "None \<noteq> ok x" "ok x \<noteq> fail e" "fail e \<noteq> ok x"
  "fail e \<noteq> None" "None \<noteq> fail e"
  by (simp_all add: ok_def fail_def)

lemma ok_inject [simp]: "(ok x = ok y) = (x = y)"
  by (simp add: ok_def)

lemma Some_eq_ok [simp]: "(Some z = ok x) = (z = Inr x)"
  by (simp add: ok_def)

lemma bindR_eq_ok: "(bindR m f = ok y) = (\<exists>x. m = ok x \<and> f x = ok y)"
  by (auto simp add: bindR_def ok_def split: option.splits sum.splits)

lemma deref_eq_ok [simp]: "(deref p = ok n) = (p = Some n)"
  by (cases p) (simp_all add: deref_def)

lemma find_ok_size:
  "findRebalanceCandidate P n b = Inr c \<Longrightarrow> \<not> is_leaf n \<Longrightarrow> 3 \<le> nsize n"
proof (cases n)
  case (Leaf lb ld)
  assume "\<not> is_leaf n"
  with Leaf show ?thesis by simp
next
  case (InnerNode bb l r h)
  assume f: "findRebalanceCandidate P n b = Inr c"
  show ?thesis
  proof (cases l)
    case None
    with f InnerNode show ?thesis by simp
  next
    case (Some ln)
    note l = Some
    show ?thesis
    proof (cases r)
      case None
      with f InnerNode l show ?thesis by (simp split: sum.splits)
    next
      case (Some rn)
      with InnerNode l nsize_pos [of ln] nsize_pos [of rn] show ?thesis by simp
    qed
  qed
qed

lemma sel_cases:
  "selectLeastIncreaser P bnd x y b = x \<or> selectLeastIncreaser P bnd x y b = y"
  by (simp add: selectLeastIncreaser_def Let_def)

lemma get_slot_inner: "get_slot s n = Some c \<Longrightarrow> \<not> is_leaf n"
  by (cases n) simp_all

lemma set_slot_inner [simp]: "is_leaf (set_slot s x n) = is_leaf n"
  by (cases n; cases s) simp_all

lemma get_set_same [simp]: "\<not> is_leaf n \<Longrightarrow> get_slot s (set_slot s x n) = x"
  by (cases n; cases s) simp_all

lemma get_set_other [simp]: "get_slot (other s) (set_slot s x n) = get_slot (other s) n"
  by (cases n; cases s) simp_all

lemma get_set_other_rev [simp]: "get_slot s (set_slot (other s) x n) = get_slot s n"
  by (cases n; cases s) simp_all

lemma nsize_inner:
  "\<not> is_leaf n \<Longrightarrow> nsize n = 1 + osize (get_slot s n) + osize (get_slot (other s) n)"
  by (cases n; cases s) simp_all

lemma updateBounds_facts:
  "updateBounds P n = ok n1 \<Longrightarrow> \<not> is_leaf n \<Longrightarrow>
     \<not> is_leaf n1 \<and> get_slot SlotLeft n1 = get_slot SlotLeft n
       \<and> get_slot SlotRight n1 = get_slot SlotRight n"
  by (cases n) (auto simp add: bindR_eq_ok)

lemma updateHeight_facts:
  "updateHeight n = ok n1 \<Longrightarrow> \<not> is_leaf n \<Longrightarrow>
     \<not> is_leaf n1 \<and> get_slot SlotLeft n1 = get_slot SlotLeft n
       \<and> get_slot SlotRight n1 = get_slot SlotRight n"
  by (cases n) (auto simp add: bindR_eq_ok)

lemma same_slots_size:
  "\<not> is_leaf n \<Longrightarrow> \<not> is_leaf n1 \<Longrightarrow> get_slot SlotLeft n1 = get_slot SlotLeft n \<Longrightarrow>
   get_slot SlotRight n1 = get_slot SlotRight n \<Longrightarrow> nsize n1 = nsize n"
  by (cases n; cases n1) simp_all

lemma update_size:
  assumes "updateBounds P n = ok n1" "updateHeight n1 = ok n2" "\<not> is_leaf n"
  shows "nsize n2 = nsize n \<and> \<not> is_leaf n2"
proof -
  from updateBounds_facts [OF assms(1,3)] have a: "\<not> is_leaf n1"
    "get_slot SlotLeft n1 = get_slot SlotLeft n" "get_slot SlotRight n1 = get_slot SlotRight n"
    by simp_all
  from updateHeight_facts [OF assms(2) a(1)] have b: "\<not> is_leaf n2"
    "get_slot SlotLeft n2 = get_slot SlotLeft n1" "get_slot SlotRight n2 = get_slot SlotRight n1"
    by simp_all
  from same_slots_size [OF assms(3) b(1)] a b show ?thesis by simp
qed

lemma set_slot_size:
  "get_slot s n = Some c \<Longrightarrow> nsize (set_slot s x n) + nsize c = nsize n + osize x"
  by (cases n; cases s) simp_all

lemma node_insert_inner_ok:
  assumes "node_insert (Suc k) P n b d = ok n'" "\<not> is_leaf n"
  shows "\<exists>s c c' sn n1 n2. get_slot s n = Some c \<and> get_slot (other s) n = Some c'
     \<and> node_insert k P c b d = ok sn
     \<and> updateBounds P (set_slot s (Some sn) n) = ok n1
     \<and> updateHeight n1 = ok n2
     \<and> rebalance k P n2 = ok n'"
proof (cases n)
  case (Leaf lb ld)
  with assms(2) show ?thesis by simp
next
  case (InnerNode bb l r h)
  from assms(1) InnerNode obtain ln rn where l: "l = Some ln" and r: "r = Some rn"
    by (auto simp add: bindR_eq_ok)
  from sel_cases [of P "\<lambda>x. bounds (snd x)" "(SlotLeft, ln)" "(SlotRight, rn)" b]
  show ?thesis
  proof
    assume e: "selectLeastIncreaser P (\<lambda>x. bounds (snd x)) (SlotLeft, ln) (SlotRight, rn) b = (SlotLeft, ln)"
    from assms(1) obtain sn n1 n2 where
      "node_insert k P ln b d = ok sn"
      "updateBounds P (set_slot SlotLeft (Some sn) n) = ok n1"
      "updateHeight n1 = ok n2" "rebalance k P n2 = ok n'"
      unfolding InnerNode l r by (simp add: bindR_eq_ok Let_def e del: updateBounds.simps updateHeight.simps) blast
    then have "get_slot SlotLeft n = Some ln \<and> get_slot (other SlotLeft) n = Some rn
       \<and> node_insert k P ln b d = ok sn
       \<and> updateBounds P (set_slot SlotLeft (Some sn) n) = ok n1
       \<and> updateHeight n1 = ok n2 \<and> rebalance k P n2 = ok n'"
      unfolding InnerNode l r by simp
    then show ?thesis
      by blast
  next
    assume e: "selectLeastIncreaser P (\<lambda>x. bounds (snd x)) (SlotLeft, ln) (SlotRight, rn) b = (SlotRight, rn)"
    from assms(1) obtain sn n1 n2 where
      "node_insert k P rn b d = ok sn"
      "updateBounds P (set_slot SlotRight (Some sn) n) = ok n1"
      "updateHeight n1 = ok n2" "rebalance k P n2 = ok n'"
      unfolding InnerNode l r by (simp add: bindR_eq_ok Let_def e del: updateBounds.simps updateHeight.simps) blast
    then have "get_slot SlotRight n = Some rn \<and> get_slot (other SlotRight) n = Some ln
       \<and> node_insert k P rn b d = ok sn
       \<and> updateBounds P (set_slot SlotRight (Some sn) n) = ok n1
       \<and> updateHeight n1 = ok n2 \<and> rebalance k P n2 = ok n'"
      unfolding InnerNode l r by simp
    then show ?thesis
      by blast
  qed
qed

lemma node_remove_inner_ok:
  assumes "node_remove (Suc k) P n b d = ok (n', p)" "\<not> is_leaf n"
  shows "\<exists>n1 p1. doRemove k P n b d SlotLeft = ok (n1, p1)
     \<and> ((p1 \<noteq> Nullptr \<and> n' = n1 \<and> p = p1)
        \<or> (p1 = Nullptr \<and> doRemove k P n1 b d SlotRight = ok (n', p)))"
  using assms by (cases n) (auto simp add: bindR_eq_ok split: if_splits)

lemma doRemove_ok:
  assumes "doRemove (Suc k) P n b d s = ok (n', p)"
  shows "\<exists>cn. get_slot s n = Some cn \<and>
     ((\<not> box_contains P (bounds cn) b \<and> n' = n \<and> p = Nullptr) \<or>
      (\<exists>cn' q. node_remove k P cn b d = ok (cn', q) \<and>
         ((q = Nullptr \<and> n' = set_slot (other s) None (set_slot s (Some cn') n)
             \<and> p = ptr_of (get_slot (other s) n)) \<or>
          (q = This \<and> n' = set_slot s (Some cn') n \<and> p = Nullptr) \<or>
          (\<exists>m n1 n2. q = Other m \<and> updateBounds P (set_slot s (Some m) n) = ok n1
             \<and> updateHeight n1 = ok n2 \<and> rebalance k P n2 = ok n' \<and> p = This))))"
proof -
  from assms obtain cn where c: "get_slot s n = Some cn"
    by (auto simp add: bindR_eq_ok)
  show ?thesis
  proof (cases "box_contains P (bounds cn) b")
    case False
    with assms c show ?thesis
      by (simp add: bindR_eq_ok)
  next
    case True
    with assms c obtain cn' q where r: "node_remove k P cn b d = ok (cn', q)"
      by (auto simp add: bindR_eq_ok)
    show ?thesis
    proof (cases q)
      case Nullptr
      with assms c True r show ?thesis
        by (simp add: bindR_eq_ok)
    next
      case This
      with assms c True r show ?thesis
        by (simp add: bindR_eq_ok)
    next
      case (Other m)
      with assms c True r show ?thesis
        by (simp add: bindR_eq_ok) blast
    qed
  qed
qed

lemma rebalance_ok:
  assumes "rebalance (Suc k) P n = ok n'"
  shows "n' = n \<or> (\<exists>hs hi lo. get_slot hs n = Some hi \<and> get_slot (other hs) n = Some lo
     \<and> height lo + 1 < height hi \<and> rebalance_into k P hs n = ok n')"
proof -
  from assms obtain ln rn where l: "get_slot SlotLeft n = Some ln"
    and r: "get_slot SlotRight n = Some rn"
    by (auto simp add: bindR_eq_ok)
  from assms l r have "n' = n
    \<or> (height rn + 1 < height ln \<and> rebalance_into k P SlotLeft n = ok n')
    \<or> (height ln + 1 < height rn \<and> rebalance_into k P SlotRight n = ok n')"
    by (auto simp add: bindR_eq_ok split: if_splits)
  with l r show ?thesis
    by (metis other.simps)
qed

lemma rebalance_into_ok:
  assumes "rebalance_into (Suc k) P hs n = ok n'"
  shows "\<exists>lo hi c hi' p lo'. get_slot (other hs) n = Some lo \<and> get_slot hs n = Some hi
     \<and> findRebalanceCandidate P hi (bounds lo) = Inr c
     \<and> node_remove k P hi (fst c) (snd c) = ok (hi', p)
     \<and> node_insert k P lo (fst c) (snd c) = ok lo'
     \<and> n' = set_slot (other hs) (Some lo') (set_slot hs (assigned hi' p) n)"
  using assms by (auto simp add: bindR_eq_ok Let_def)

lemma size_facts:
  fixes P :: "('b, 'v::{ord,minus}, 'u) params"
  shows
  "(\<forall>n b d n'. node_insert k P n b d = ok n' \<longrightarrow> nsize n' \<le> nsize n + 2) \<and>
   (\<forall>n b d n' p. node_remove k P n b d = ok (n', p) \<longrightarrow> remove_post n n' p) \<and>
   (\<forall>n b d s n' p. doRemove k P n b d s = ok (n', p) \<longrightarrow> doRemove_post n n' p) \<and>
   (\<forall>n n'. rebalance k P n = ok n' \<longrightarrow> nsize n' \<le> nsize n) \<and>
   (\<forall>hs n n' hi. rebalance_into k P hs n = ok n' \<longrightarrow> get_slot hs n = Some hi \<longrightarrow>
      \<not> is_leaf hi \<longrightarrow> nsize n' \<le> nsize n)"
proof (induction k)
  case 0
  show ?case by simp
next
  case (Suc k)
  note IH = Suc
  have ins: "nsize n' \<le> nsize n + 2" if "node_insert k P n b d = ok n'" for n b d n'
    using IH that by simp
  have rem: "remove_post n n' p" if "node_remove k P n b d = ok (n', p)" for n b d n' p
    using IH that by simp
  have dor: "doRemove_post n n' p" if "doRemove k P n b d s = ok (n', p)" for n b d s n' p
    using IH that by simp
  have reb: "nsize n' \<le> nsize n" if "rebalance k P n = ok n'" for n n'
    using IH that by simp
  have rbi: "nsize n' \<le> nsize n"
    if "rebalance_into k P hs n = ok n'" "get_slot hs n = Some hi" "\<not> is_leaf hi"
    for hs n n' hi
    using IH that by simp
  have A1: "nsize n' \<le> nsize n + 2" if h: "node_insert (Suc k) P n b d = ok n'" for n b d n'
  proof (cases "is_leaf n")
    case True
    with h show ?thesis by (cases n) (auto simp add: newInnerNode_def)
  next
    case False
    from node_insert_inner_ok [OF h False] obtain s c c' sn n1 n2 where
      c: "get_slot s n = Some c" and sn: "node_insert k P c b d = ok sn"
      and n1: "updateBounds P (set_slot s (Some sn) n) = ok n1"
      and n2: "updateHeight n1 = ok n2" and n3: "rebalance k P n2 = ok n'"
      by blast
    from update_size [OF n1 n2] False have "nsize n2 = nsize (set_slot s (Some sn) n)"
      by simp
    with set_slot_size [OF c, of "Some sn"] ins [OF sn] reb [OF n3] show ?thesis
      by simp
  qed
  have A2: "remove_post n n' p" if h: "node_remove (Suc k) P n b d = ok (n', p)" for n b d n' p
  proof (cases "is_leaf n")
    case True
    with h show ?thesis by (cases n) (auto simp add: remove_post_def split: if_splits)
  next
    case False
    from node_remove_inner_ok [OF h False] obtain n1 p1 where
      d1: "doRemove k P n b d SlotLeft = ok (n1, p1)"
      and d2: "(p1 \<noteq> Nullptr \<and> n' = n1 \<and> p = p1)
        \<or> (p1 = Nullptr \<and> doRemove k P n1 b d SlotRight = ok (n', p))"
      by blast
    from dor [OF d1] have p1: "doRemove_post n n1 p1" .
    from d2 show ?thesis
    proof
      assume "p1 \<noteq> Nullptr \<and> n' = n1 \<and> p = p1"
      with p1 show ?thesis by (simp add: remove_post_def doRemove_post_def)
    next
      assume "p1 = Nullptr \<and> doRemove k P n1 b d SlotRight = ok (n', p)"
      then have "doRemove_post n1 n' p" using dor by blast
      with p1 show ?thesis by (auto simp add: remove_post_def doRemove_post_def)
    qed
  qed
  have A3: "doRemove_post n n' p" if h: "doRemove (Suc k) P n b d s = ok (n', p)" for n b d s n' p
  proof -
    from doRemove_ok [OF h] obtain cn where c: "get_slot s n = Some cn"
      and cases: "(\<not> box_contains P (bounds cn) b \<and> n' = n \<and> p = Nullptr) \<or>
      (\<exists>cn' q. node_remove k P cn b d = ok (cn', q) \<and>
         ((q = Nullptr \<and> n' = set_slot (other s) None (set_slot s (Some cn') n)
             \<and> p = ptr_of (get_slot (other s) n)) \<or>
          (q = This \<and> n' = set_slot s (Some cn') n \<and> p = Nullptr) \<or>
          (\<exists>m n1 n2. q = Other m \<and> updateBounds P (set_slot s (Some m) n) = ok n1
             \<and> updateHeight n1 = ok n2 \<and> rebalance k P n2 = ok n' \<and> p = This)))"
      by blast
    from c have inner: "\<not> is_leaf n" by (rule get_slot_inner)
    note sz = nsize_inner [OF inner, of s]
    from cases show ?thesis
    proof (elim disjE exE conjE)
      assume "n' = n" "p = Nullptr"
      then show ?thesis by (simp add: doRemove_post_def)
    next
      fix cn' q
      assume r: "node_remove k P cn b d = ok (cn', q)" and q: "q = Nullptr"
        and n': "n' = set_slot (other s) None (set_slot s (Some cn') n)"
        and p: "p = ptr_of (get_slot (other s) n)"
      from rem [OF r] have le: "nsize cn' \<le> nsize cn" by (simp add: remove_post_def)
      have i2: "\<not> is_leaf n'" using inner n' by simp
      have "nsize n' = 1 + nsize cn'"
        using nsize_inner [OF i2, of s] inner n' by simp
      with le sz c nsize_pos [of cn] p show ?thesis
        by (cases "get_slot (other s) n") (simp_all add: doRemove_post_def)
    next
      fix cn' q
      assume r: "node_remove k P cn b d = ok (cn', q)" and q: "q = This"
        and n': "n' = set_slot s (Some cn') n" and p: "p = Nullptr"
      from rem [OF r] have le: "nsize cn' \<le> nsize cn" by (simp add: remove_post_def)
      from set_slot_size [OF c, of "Some cn'"] le n' p show ?thesis
        by (simp add: doRemove_post_def)
    next
      fix cn' q m n1 n2
      assume r: "node_remove k P cn b d = ok (cn', q)" and q: "q = Other m"
        and n1: "updateBounds P (set_slot s (Some m) n) = ok n1"
        and n2: "updateHeight n1 = ok n2" and n3: "rebalance k P n2 = ok n'" and p: "p = This"
      from rem [OF r] q have le: "nsize m + 2 \<le> nsize cn" by (simp add: remove_post_def)
      from update_size [OF n1 n2] inner have e: "nsize n2 = nsize (set_slot s (Some m) n)"
        and i2: "\<not> is_leaf n2"
        by simp_all
      from set_slot_size [OF c, of "Some m"] le e reb [OF n3] p show ?thesis
        by (simp add: doRemove_post_def)
    qed
  qed
  have A4: "nsize n' \<le> nsize n" if h: "rebalance (Suc k) P n = ok n'" for n n'
  proof -
    from rebalance_ok [OF h] show ?thesis
    proof (elim disjE exE conjE)
      assume "n' = n"
      then show ?thesis by simp
    next
      fix hs hi lo
      assume hi: "get_slot hs n = Some hi" and ht: "height lo + 1 < height hi"
        and r: "rebalance_into k P hs n = ok n'"
      from ht have "\<not> is_leaf hi" by (cases hi) simp_all
      with rbi [OF r hi] show ?thesis by simp
    qed
  qed
  have A5: "nsize n' \<le> nsize n"
    if h: "rebalance_into (Suc k) P hs n = ok n'" and hi: "get_slot hs n = Some hi"
      and nl: "\<not> is_leaf hi"
    for hs n n' hi
  proof -
    from rebalance_into_ok [OF h] hi obtain lo c hi' p lo' where
      lo: "get_slot (other hs) n = Some lo"
      and c: "findRebalanceCandidate P hi (bounds lo) = Inr c"
      and r: "node_remove k P hi (fst c) (snd c) = ok (hi', p)"
      and i: "node_insert k P lo (fst c) (snd c) = ok lo'"
      and n': "n' = set_slot (other hs) (Some lo') (set_slot hs (assigned hi' p) n)"
      by auto
    from hi have inner: "\<not> is_leaf n" by (rule get_slot_inner)
    from inner n' have inner': "\<not> is_leaf n'" by simp
    from find_ok_size [OF c nl] have three: "3 \<le> nsize hi" .
    from rem [OF r] nl have q: "osize (assigned hi' p) + 2 \<le> nsize hi"
      using three by (cases p) (simp_all add: remove_post_def)
    have "nsize n' = 1 + osize (assigned hi' p) + nsize lo'"
      using nsize_inner [OF inner', of hs] inner n' by simp
    with nsize_inner [OF inner, of hs] hi lo q ins [OF i] show ?thesis
      by simp
  qed
  from A1 A2 A3 A4 A5 show ?case
    by blast
qed

lemma node_insert_size:
  "node_insert k P n b d = ok n' \<Longrightarrow> nsize n' \<le> nsize n + 2"
  using size_facts [of k P] by simp

lemma node_remove_size:
  "node_remove k P n b d = ok (n', p) \<Longrightarrow> remove_post n n' p"
  using size_facts [of k P] by simp

lemma doRemove_size:
  "doRemove k P n b d s = ok (n', p) \<Longrightarrow> doRemove_post n n' p"
  using size_facts [of k P] by simp

lemma settles_Some: "settles (\<lambda>k. Some y)"
  by (simp add: settles_def)

lemma settles_ok: "settles (\<lambda>k. ok x)"
  by (simp add: settles_def ok_def)

lemma settles_deref: "settles (\<lambda>k. deref p)"
  by (cases p) (simp_all add: settles_def deref_def ok_def fail_def)

lemma settles_Suc: "settles (\<lambda>k. M (Suc k)) \<Longrightarrow> settles M"
proof -
  assume "settles (\<lambda>k. M (Suc k))"
  then obtain k y where "\<forall>j. M (Suc (k + j)) = Some y"
    by (auto simp add: settles_def)
  then have "\<forall>j. M (Suc k + j) = Some y"
    by simp
  then show ?thesis
    unfolding settles_def by blast
qed

lemma settles_bind:
  assumes m: "settles m" and f: "\<And>x k. m k = ok x \<Longrightarrow> settles (\<lambda>k. f k x)"
  shows "settles (\<lambda>k. bindR (m k) (f k))"
proof -
  from m obtain k1 y where k1: "\<forall>j. m (k1 + j) = Some y"
    by (auto simp add: settles_def)
  show ?thesis
  proof (cases y)
    case (Inl e)
    with k1 have "\<forall>j. bindR (m (k1 + j)) (f (k1 + j)) = Some (Inl e)"
      by (simp add: bindR_def)
    then show ?thesis
      unfolding settles_def by blast
  next
    case (Inr x)
    from k1 have "m (k1 + 0) = Some y" by (rule allE)
    with Inr have "m k1 = ok x" by (simp add: ok_def)
    from f [OF this] obtain k2 z where k2: "\<forall>j. f (k2 + j) x = Some z"
      by (auto simp add: settles_def)
    have "bindR (m (k1 + k2 + j)) (f (k1 + k2 + j)) = Some z" for j
    proof -
      have a: "m (k1 + (k2 + j)) = Some (Inr x)" using k1 Inr by blast
      have b: "f (k2 + (k1 + j)) x = Some z" using k2 by blast
      have c: "k2 + (k1 + j) = k1 + k2 + j" by simp
      from a b show ?thesis
        unfolding c by (simp add: bindR_def add.assoc)
    qed
    then show ?thesis
      unfolding settles_def by blast
  qed
qed

lemma child_size: "get_slot s n = Some c \<Longrightarrow> nsize c < nsize n"
  by (cases n; cases s) auto

lemma settles_rebalance_into:
  fixes P :: "('b, 'v::{ord,minus}, 'u) params"
  assumes R: "\<And>hi b d. get_slot hs n = Some hi \<Longrightarrow> settles (\<lambda>k. node_remove k P hi b d)"
    and I: "\<And>hi lo c b d. get_slot hs n = Some hi \<Longrightarrow> get_slot (other hs) n = Some lo \<Longrightarrow>
      findRebalanceCandidate P hi (bounds lo) = Inr c \<Longrightarrow> settles (\<lambda>k. node_insert k P lo b d)"
  shows "settles (\<lambda>k. rebalance_into k P hs n)"
proof (rule settles_Suc, simp only: rebalance_into.simps, rule settles_bind [OF settles_deref])
  fix lo k0
  assume "deref (get_slot (other hs) n) = ok lo"
  then have lo: "get_slot (other hs) n = Some lo" by simp
  show "settles (\<lambda>k. bindR (deref (get_slot hs n)) (\<lambda>hi.
     bindR (Some (findRebalanceCandidate P hi (bounds lo))) (\<lambda>toRemove.
     bindR (node_remove k P hi (fst toRemove) (snd toRemove)) (\<lambda>(hi', newHigher).
       let n1 = set_slot hs (assigned hi' newHigher) n
       in bindR (node_insert k P lo (fst toRemove) (snd toRemove)) (\<lambda>lo'.
          ok (set_slot (other hs) (Some lo') n1))))))"
  proof (rule settles_bind [OF settles_deref])
    fix hi k1
    assume "deref (get_slot hs n) = ok hi"
    then have hi: "get_slot hs n = Some hi" by simp
    show "settles (\<lambda>k. bindR (Some (findRebalanceCandidate P hi (bounds lo))) (\<lambda>toRemove.
     bindR (node_remove k P hi (fst toRemove) (snd toRemove)) (\<lambda>(hi', newHigher).
       let n1 = set_slot hs (assigned hi' newHigher) n
       in bindR (node_insert k P lo (fst toRemove) (snd toRemove)) (\<lambda>lo'.
          ok (set_slot (other hs) (Some lo') n1)))))"
    proof (rule settles_bind [OF settles_Some])
      fix c k2
      assume "Some (findRebalanceCandidate P hi (bounds lo)) = ok c"
      then have c: "findRebalanceCandidate P hi (bounds lo) = Inr c" by simp
      show "settles (\<lambda>k. bindR (node_remove k P hi (fst c) (snd c)) (\<lambda>(hi', newHigher).
       let n1 = set_slot hs (assigned hi' newHigher) n
       in bindR (node_insert k P lo (fst c) (snd c)) (\<lambda>lo'.
          ok (set_slot (other hs) (Some lo') n1))))"
      proof (rule settles_bind [OF R [OF hi]])
        fix x k3
        show "settles (\<lambda>k. case x of (hi', newHigher) \<Rightarrow>
           let n1 = set_slot hs (assigned hi' newHigher) n
           in bindR (node_insert k P lo (fst c) (snd c)) (\<lambda>lo'.
              ok (set_slot (other hs) (Some lo') n1)))"
          by (cases x) (simp add: Let_def settles_bind [OF I [OF hi lo c]] settles_ok)
      qed
    qed
  qed
qed

lemma settles_if:
  "(c \<Longrightarrow> settles A) \<Longrightarrow> (\<not> c \<Longrightarrow> settles B) \<Longrightarrow> settles (\<lambda>k. if c then A k else B k)"
  by (cases c) simp_all

lemma settles_updateBounds: "\<not> is_leaf n \<Longrightarrow> settles (\<lambda>k. updateBounds P n)"
  by (cases n) (simp_all add: settles_bind settles_deref settles_ok)

lemma settles_updateHeight: "\<not> is_leaf n \<Longrightarrow> settles (\<lambda>k. updateHeight n)"
  by (cases n) (simp_all add: settles_bind settles_deref settles_ok)

lemma settles_update_then:
  assumes "\<not> is_leaf n"
    and "\<And>n1 n2. updateBounds P n = ok n1 \<Longrightarrow> updateHeight n1 = ok n2 \<Longrightarrow> settles (\<lambda>k. f k n2)"
  shows "settles (\<lambda>k. bindR (updateBounds P n) (\<lambda>n1. bindR (updateHeight n1) (\<lambda>n2. f k n2)))"
proof (rule settles_bind [OF settles_updateBounds [OF assms(1)]])
  fix n1 k0
  assume n1: "updateBounds P n = ok n1"
  from updateBounds_facts [OF n1 assms(1)] have "\<not> is_leaf n1" by simp
  then show "settles (\<lambda>k. bindR (updateHeight n1) (\<lambda>n2. f k n2))"
    by (rule settles_bind [OF settles_updateHeight]) (rule assms(2) [OF n1])
qed

lemma settles_rebalance_aux:
  fixes P :: "('b, 'v::{ord,minus}, 'u) params"
  assumes l: "get_slot SlotLeft n = Some ln" and r: "get_slot SlotRight n = Some rn"
    and R: "\<And>hs hi lo b d. get_slot hs n = Some hi \<Longrightarrow> get_slot (other hs) n = Some lo \<Longrightarrow>
      height lo + 1 < height hi \<Longrightarrow> settles (\<lambda>k. node_remove k P hi b d)"
    and I: "\<And>hs hi lo c b d. get_slot hs n = Some hi \<Longrightarrow> get_slot (other hs) n = Some lo \<Longrightarrow>
      height lo + 1 < height hi \<Longrightarrow> findRebalanceCandidate P hi (bounds lo) = Inr c \<Longrightarrow>
      settles (\<lambda>k. node_insert k P lo b d)"
  shows "settles (\<lambda>k.
       if height ln > height rn \<and> height ln - height rn > 1 then
         rebalance_into k P SlotLeft n
       else if height rn > height ln \<and> height rn - height ln > 1 then
         rebalance_into k P SlotRight n
       else ok n)"
proof (intro settles_if settles_ok)
  assume c: "height rn < height ln \<and> 1 < height ln - height rn"
  show "settles (\<lambda>k. rebalance_into k P SlotLeft n)"
  proof (rule settles_rebalance_into)
    fix hi b d
    assume "get_slot SlotLeft n = Some hi"
    with l r have e: "hi = ln" by simp
    from c have "height rn + 1 < height ln" by arith
    with l r show "settles (\<lambda>k. node_remove k P hi b d)"
      unfolding e by (intro R [of SlotLeft ln rn]) simp_all
  next
    fix hi lo c' b d
    assume "get_slot SlotLeft n = Some hi" "get_slot (other SlotLeft) n = Some lo"
      "findRebalanceCandidate P hi (bounds lo) = Inr c'"
    with l r have e: "hi = ln" "lo = rn" and f: "findRebalanceCandidate P ln (bounds rn) = Inr c'"
      by simp_all
    from c have "height rn + 1 < height ln" by arith
    with l r f show "settles (\<lambda>k. node_insert k P lo b d)"
      unfolding e by (intro I [of SlotLeft ln rn c']) simp_all
  qed
next
  assume c: "height ln < height rn \<and> 1 < height rn - height ln"
  show "settles (\<lambda>k. rebalance_into k P SlotRight n)"
  proof (rule settles_rebalance_into)
    fix hi b d
    assume "get_slot SlotRight n = Some hi"
    with l r have e: "hi = rn" by simp
    from c have "height ln + 1 < height rn" by arith
    with l r show "settles (\<lambda>k. node_remove k P hi b d)"
      unfolding e by (intro R [of SlotRight rn ln]) simp_all
  next
    fix hi lo c' b d
    assume "get_slot SlotRight n = Some hi" "get_slot (other SlotRight) n = Some lo"
      "findRebalanceCandidate P hi (bounds lo) = Inr c'"
    with l r have e: "hi = rn" "lo = ln" and f: "findRebalanceCandidate P rn (bounds ln) = Inr c'"
      by simp_all
    from c have "height ln + 1 < height rn" by arith
    with l r f show "settles (\<lambda>k. node_insert k P lo b d)"
      unfolding e by (intro I [of SlotRight rn ln c']) simp_all
  qed
qed

lemma settles_rebalance:
  fixes P :: "('b, 'v::{ord,minus}, 'u) params"
  assumes R: "\<And>hs hi lo b d. get_slot hs n = Some hi \<Longrightarrow> get_slot (other hs) n = Some lo \<Longrightarrow>
      height lo + 1 < height hi \<Longrightarrow> settles (\<lambda>k. node_remove k P hi b d)"
    and I: "\<And>hs hi lo c b d. get_slot hs n = Some hi \<Longrightarrow> get_slot (other hs) n = Some lo \<Longrightarrow>
      height lo + 1 < height hi \<Longrightarrow> findRebalanceCandidate P hi (bounds lo) = Inr c \<Longrightarrow>
      settles (\<lambda>k. node_insert k P lo b d)"
  shows "settles (\<lambda>k. rebalance k P n)"
proof (rule settles_Suc, simp only: rebalance.simps, rule settles_bind [OF settles_deref],
    rule settles_bind [OF settles_deref])
  fix ln k0 rn k1
  assume "deref (get_slot SlotLeft n) = ok ln" "deref (get_slot SlotRight n) = ok rn"
  then have l: "get_slot SlotLeft n = Some ln" and r: "get_slot SlotRight n = Some rn"
    by simp_all
  show "settles (\<lambda>k.
       if height ln > height rn \<and> height ln - height rn > 1 then
         rebalance_into k P SlotLeft n
       else if height rn > height ln \<and> height rn - height ln > 1 then
         rebalance_into k P SlotRight n
       else ok n)"
  proof (rule settles_rebalance_aux [OF l r])
    fix hs hi lo b d
    assume "get_slot hs n = Some hi" "get_slot (other hs) n = Some lo" "height lo + 1 < height hi"
    then show "settles (\<lambda>k. node_remove k P hi b d)" by (rule R)
  next
    fix hs hi lo c b d
    assume "get_slot hs n = Some hi" "get_slot (other hs) n = Some lo" "height lo + 1 < height hi"
      "findRebalanceCandidate P hi (bounds lo) = Inr c"
    then show "settles (\<lambda>k. node_insert k P lo b d)" by (rule I)
  qed
qed

lemma settles_doRemove:
  fixes P :: "('b, 'v::{ord,minus}, 'u) params"
  assumes Rc: "\<And>c. get_slot s n = Some c \<Longrightarrow> settles (\<lambda>k. node_remove k P c b d)"
    and RB: "\<And>c j cn' m n1 n2. get_slot s n = Some c \<Longrightarrow>
      node_remove j P c b d = ok (cn', Other m) \<Longrightarrow>
      updateBounds P (set_slot s (Some m) n) = ok n1 \<Longrightarrow> updateHeight n1 = ok n2 \<Longrightarrow>
      settles (\<lambda>k. rebalance k P n2)"
  shows "settles (\<lambda>k. doRemove k P n b d s)"
proof (rule settles_Suc, simp only: doRemove.simps, rule settles_bind [OF settles_deref],
    rule settles_if [OF _ settles_ok])
  fix cn k0
  assume "deref (get_slot s n) = ok cn"
  then have c: "get_slot s n = Some cn" by simp
  then have inner: "\<not> is_leaf n" by (rule get_slot_inner)
  show "settles (\<lambda>k. bindR (node_remove k P cn b d) (\<lambda>(cn', newChild).
           case newChild of
             Nullptr \<Rightarrow>
               ok (set_slot (other s) None (set_slot s (Some cn') n),
                   ptr_of (get_slot (other s) n))
           | Other m \<Rightarrow>
               bindR (updateBounds P (set_slot s (Some m) n)) (\<lambda>n1.
               bindR (updateHeight n1) (\<lambda>n2.
               bindR (rebalance k P n2) (\<lambda>n3.
               ok (n3, This))))
           | This \<Rightarrow> ok (set_slot s (Some cn') n, Nullptr)))"
  proof (rule settles_bind [OF Rc [OF c]])
    fix x j
    assume x: "node_remove j P cn b d = ok x"
    obtain cn' q where xe: "x = (cn', q)" by (cases x)
    show "settles (\<lambda>k. case x of (cn', newChild) \<Rightarrow>
           case newChild of
             Nullptr \<Rightarrow>
               ok (set_slot (other s) None (set_slot s (Some cn') n),
                   ptr_of (get_slot (other s) n))
           | Other m \<Rightarrow>
               bindR (updateBounds P (set_slot s (Some m) n)) (\<lambda>n1.
               bindR (updateHeight n1) (\<lambda>n2.
               bindR (rebalance k P n2) (\<lambda>n3.
               ok (n3, This))))
           | This \<Rightarrow> ok (set_slot s (Some cn') n, Nullptr))"
    proof (cases q)
      case Nullptr
      with xe show ?thesis by (simp add: settles_ok)
    next
      case This
      with xe show ?thesis by (simp add: settles_ok)
    next
      case (Other m)
      have "settles (\<lambda>k. bindR (updateBounds P (set_slot s (Some m) n)) (\<lambda>n1.
               bindR (updateHeight n1) (\<lambda>n2.
               bindR (rebalance k P n2) (\<lambda>n3.
               ok (n3, This)))))"
      proof (rule settles_update_then)
        show "\<not> is_leaf (set_slot s (Some m) n)" using inner by simp
      next
        fix n1 n2
        assume "updateBounds P (set_slot s (Some m) n) = ok n1" "updateHeight n1 = ok n2"
        with RB [OF c] x xe Other have "settles (\<lambda>k. rebalance k P n2)" by blast
        then show "settles (\<lambda>k. bindR (rebalance k P n2) (\<lambda>n3. ok (n3, This)))"
          by (rule settles_bind) (rule settles_ok)
      qed
      with xe Other show ?thesis by simp
    qed
  qed
qed

lemma settles_node_insert_aux:
  fixes P :: "('b, 'v::{ord,minus}, 'u) params"
  assumes C: "\<And>c. c = ln \<or> c = rn \<Longrightarrow> settles (\<lambda>k. node_insert k P c b d)"
    and RB: "\<And>s c sn j n1 n2. get_slot s (InnerNode bb (Some ln) (Some rn) h) = Some c \<Longrightarrow>
      node_insert j P c b d = ok sn \<Longrightarrow>
      updateBounds P (set_slot s (Some sn) (InnerNode bb (Some ln) (Some rn) h)) = ok n1 \<Longrightarrow>
      updateHeight n1 = ok n2 \<Longrightarrow> settles (\<lambda>k. rebalance k P n2)"
  shows "settles (\<lambda>k. node_insert k P (InnerNode bb (Some ln) (Some rn) h) b d)"
proof -
  obtain s c where e: "selectLeastIncreaser P (\<lambda>x. bounds (snd x)) (SlotLeft, ln) (SlotRight, rn) b = (s, c)"
    and g: "get_slot s (InnerNode bb (Some ln) (Some rn) h) = Some c"
    using sel_cases [of P "\<lambda>x. bounds (snd x)" "(SlotLeft, ln)" "(SlotRight, rn)" b]
    by auto
  from g have c: "c = ln \<or> c = rn" by (cases s) simp_all
  have main: "settles (\<lambda>k. bindR (node_insert k P c b d) (\<lambda>sn.
          bindR (updateBounds P (set_slot s (Some sn) (InnerNode bb (Some ln) (Some rn) h))) (\<lambda>n1.
          bindR (updateHeight n1) (\<lambda>n2.
          rebalance k P n2))))"
  proof (rule settles_bind [OF C [OF c]])
    fix sn j
    assume sn: "node_insert j P c b d = ok sn"
    show "settles (\<lambda>k. bindR (updateBounds P (set_slot s (Some sn) (InnerNode bb (Some ln) (Some rn) h))) (\<lambda>n1.
          bindR (updateHeight n1) (\<lambda>n2. rebalance k P n2)))"
    proof (rule settles_update_then)
      show "\<not> is_leaf (set_slot s (Some sn) (InnerNode bb (Some ln) (Some rn) h))" by simp
    next
      fix n1 n2
      assume "updateBounds P (set_slot s (Some sn) (InnerNode bb (Some ln) (Some rn) h)) = ok n1"
        "updateHeight n1 = ok n2"
      with g sn show "settles (\<lambda>k. rebalance k P n2)" by (rule RB)
    qed
  qed
  have eq: "node_insert (Suc k) P (InnerNode bb (Some ln) (Some rn) h) b d =
      bindR (node_insert k P c b d) (\<lambda>sn.
          bindR (updateBounds P (set_slot s (Some sn) (InnerNode bb (Some ln) (Some rn) h))) (\<lambda>n1.
          bindR (updateHeight n1) (\<lambda>n2.
          rebalance k P n2)))" for k
    by (simp only: node_insert.simps deref_Some bindR_ok Let_def e fst_conv snd_conv)
  show ?thesis
    by (rule settles_Suc) (simp only: eq main)
qed

lemma settles_node_remove_aux:
  fixes P :: "('b, 'v::{ord,minus}, 'u) params"
  assumes D1: "settles (\<lambda>k. doRemove k P (InnerNode bb l r h) b d SlotLeft)"
    and D2: "\<And>j n1. doRemove j P (InnerNode bb l r h) b d SlotLeft = ok (n1, Nullptr) \<Longrightarrow>
      settles (\<lambda>k. doRemove k P n1 b d SlotRight)"
  shows "settles (\<lambda>k. node_remove k P (InnerNode bb l r h) b d)"
proof (rule settles_Suc, simp only: node_remove.simps, rule settles_bind [OF D1])
  fix x j
  assume x: "doRemove j P (InnerNode bb l r h) b d SlotLeft = ok x"
  obtain n1 p1 where xe: "x = (n1, p1)" by (cases x)
  show "settles (\<lambda>k. case x of (n1, result) \<Rightarrow>
       if result \<noteq> Nullptr then ok (n1, result)
       else doRemove k P n1 b d SlotRight)"
  proof (cases "p1 = Nullptr")
    case True
    with x xe D2 [of j n1] show ?thesis by simp
  next
    case False
    with xe show ?thesis by (simp add: settles_ok)
  qed
qed

lemma settles_leaf:
  "settles (\<lambda>k. node_remove k P (Leaf lb ld) b d)"
  "settles (\<lambda>k. node_insert k P (Leaf lb ld) b d)"
  by (rule settles_Suc, simp add: settles_ok)+

lemma settles_fail: "settles (\<lambda>k. fail e)"
  by (simp add: settles_def fail_def)

lemma height_not_leaf: "height lo + 1 < height hi \<Longrightarrow> \<not> is_leaf hi"
  by (cases hi) simp_all

lemma settles_all:
  fixes P :: "('b, 'v::{ord,minus}, 'u) params"
  shows "\<forall>n b d. nsize n \<le> N \<longrightarrow>
    settles (\<lambda>k. node_remove k P n b d) \<and> settles (\<lambda>k. node_insert k P n b d)"
proof (induction N)
  case 0
  show ?case using nsize_pos by (metis le_zero_eq less_numeral_extra(3))
next
  case (Suc N)
  note IH = Suc
  have IH_R: "settles (\<lambda>k. node_remove k P n b d)" if "nsize n \<le> N" for n b d
    using IH that by simp
  have IH_I: "settles (\<lambda>k. node_insert k P n b d)" if "nsize n \<le> N" for n b d
    using IH that by simp
  have reb_small: "settles (\<lambda>k. rebalance k P n2)" if le: "nsize n2 \<le> Suc N" for n2
  proof (rule settles_rebalance)
    fix hs hi lo b d
    assume "get_slot hs n2 = Some hi"
    from child_size [OF this] le show "settles (\<lambda>k. node_remove k P hi b d)"
      by (intro IH_R) simp
  next
    fix hs hi lo c b d
    assume "get_slot (other hs) n2 = Some lo"
    from child_size [OF this] le show "settles (\<lambda>k. node_insert k P lo b d)"
      by (intro IH_I) simp
  qed
  have doR: "settles (\<lambda>k. doRemove k P n b d s)" if le: "nsize n \<le> Suc N" for n b d s
  proof (rule settles_doRemove)
    fix c
    assume "get_slot s n = Some c"
    from child_size [OF this] le show "settles (\<lambda>k. node_remove k P c b d)"
      by (intro IH_R) simp
  next
    fix c j cn' m n1 n2
    assume c: "get_slot s n = Some c" and r: "node_remove j P c b d = ok (cn', Other m)"
      and n1: "updateBounds P (set_slot s (Some m) n) = ok n1" and n2: "updateHeight n1 = ok n2"
    from c have "\<not> is_leaf (set_slot s (Some m) n)"
      using get_slot_inner by simp
    from update_size [OF n1 n2 this] have e: "nsize n2 = nsize (set_slot s (Some m) n)"
      by simp
    from node_remove_size [OF r] have "nsize m + 2 \<le> nsize c"
      by (simp add: remove_post_def)
    with set_slot_size [OF c, of "Some m"] e le have "nsize n2 \<le> Suc N"
      by simp
    then show "settles (\<lambda>k. rebalance k P n2)" by (rule reb_small)
  qed
  have R1: "settles (\<lambda>k. node_remove k P n b d)" if le: "nsize n \<le> Suc N" for n b d
  proof (cases n)
    case (Leaf lb ld)
    then show ?thesis by (simp add: settles_leaf)
  next
    case (InnerNode bb l r h)
    show ?thesis
      unfolding InnerNode
    proof (rule settles_node_remove_aux)
      show "settles (\<lambda>k. doRemove k P (InnerNode bb l r h) b d SlotLeft)"
        using le InnerNode by (intro doR) simp
    next
      fix j n1
      assume "doRemove j P (InnerNode bb l r h) b d SlotLeft = ok (n1, Nullptr)"
      from doRemove_size [OF this] le InnerNode have "nsize n1 \<le> Suc N"
        by (simp add: doRemove_post_def)
      then show "settles (\<lambda>k. doRemove k P n1 b d SlotRight)" by (rule doR)
    qed
  qed
  have I1: "settles (\<lambda>k. node_insert k P n b d)" if le: "nsize n \<le> Suc N" for n b d
  proof (cases n)
    case (Leaf lb ld)
    then show ?thesis by (simp add: settles_leaf)
  next
    case (InnerNode bb l r h)
    show ?thesis
    proof (cases l)
      case None
      show ?thesis
        unfolding InnerNode None
        by (rule settles_Suc) (simp add: deref_None bindR_fail settles_fail)
    next
      case (Some ln)
      note l = Some
      show ?thesis
      proof (cases r)
        case None
        show ?thesis
          unfolding InnerNode None l
          by (rule settles_Suc) (simp add: deref_None deref_Some bindR_ok bindR_fail settles_fail)
      next
        case (Some rn)
        note n = InnerNode [unfolded l Some]
        show ?thesis
          unfolding n
        proof (rule settles_node_insert_aux)
          fix c
          assume "c = ln \<or> c = rn"
          with le n have "nsize c \<le> N" by auto
          then show "settles (\<lambda>k. node_insert k P c b d)" by (rule IH_I)
        next
          fix s c sn j n1 n2
          assume c: "get_slot s (InnerNode bb (Some ln) (Some rn) h) = Some c"
            and sn: "node_insert j P c b d = ok sn"
            and n1: "updateBounds P (set_slot s (Some sn) (InnerNode bb (Some ln) (Some rn) h)) = ok n1"
            and n2: "updateHeight n1 = ok n2"
          have "\<not> is_leaf (set_slot s (Some sn) (InnerNode bb (Some ln) (Some rn) h))"
            by simp
          from update_size [OF n1 n2 this]
          have e: "nsize n2 = nsize (set_slot s (Some sn) (InnerNode bb (Some ln) (Some rn) h))"
            and inner2: "\<not> is_leaf n2"
            by simp_all
          from set_slot_size [OF c, of "Some sn"] node_insert_size [OF sn] e le n
          have le2: "nsize n2 \<le> N + 3"
            by simp
          show "settles (\<lambda>k. rebalance k P n2)"
          proof (rule settles_rebalance)
            fix hs hi lo b' d'
            assume hi: "get_slot hs n2 = Some hi" and lo: "get_slot (other hs) n2 = Some lo"
            from nsize_inner [OF inner2, of hs] hi lo le2 nsize_pos [of lo]
            have "nsize hi \<le> Suc N" by simp
            then show "settles (\<lambda>k. node_remove k P hi b' d')" by (rule R1)
          next
            fix hs hi lo c' b' d'
            assume hi: "get_slot hs n2 = Some hi" and lo: "get_slot (other hs) n2 = Some lo"
              and ht: "height lo + 1 < height hi"
              and f: "findRebalanceCandidate P hi (bounds lo) = Inr c'"
            from find_ok_size [OF f height_not_leaf [OF ht]] have "3 \<le> nsize hi" .
            with nsize_inner [OF inner2, of hs] hi lo le2
            have "nsize lo \<le> N" by simp
            then show "settles (\<lambda>k. node_insert k P lo b' d')" by (rule IH_I)
          qed
        qed
      qed
    qed
  qed
  from R1 I1 show ?case by blast
qed


lemma node_insert_settles:
  fixes P :: "('b, 'v::{ord,minus}, 'u) params"
  shows "settles (\<lambda>k. node_insert k P n b d)"
  using settles_all [of "nsize n" P] by simp

section \<open>Faults\<close>

text \<open>
  The only fault below the tree is the dereference of a null child pointer; the
  assertions are those of \<^verbatim>\<open>AABBTree::insert\<close>, \<^verbatim>\<open>remove\<close> and \<^verbatim>\<open>bounds\<close>.
\<close>

lemma fail_inject [simp]: "(fail e = fail e') = (e = e')"
  by (simp add: fail_def)

lemma Some_eq_fail [simp]: "(Some z = fail e) = (z = Inl e)"
  by (simp add: fail_def)


lemma deref_eq_fail [simp]: "(deref p = fail e) = (p = None \<and> e = NullDereference)"
  by (cases p) (auto simp add: deref_def)









section \<open>The claims\<close>

text \<open>
  The theorems about concrete runs are stated for every fuel from a bound on,
  written \<open>n + j\<close>: the outcome is that of the code, not of a fuel that ran out.
\<close>

text \<open>
  Claim C1, at an input where the code departs from it. No leaf carries the
  payload 3. On the tree with the single leaf \<open>([0,1], 1)\<close> the call
  \<^verbatim>\<open>remove([0,1], 3)\<close> leaves the tree alone and returns \<^verbatim>\<open>true\<close>. On the tree with
  the leaves \<open>([0,1], 1)\<close> and \<open>([2,3], 2)\<close> the root is an inner node, whose
  \<^verbatim>\<open>remove\<close> returns \<^verbatim>\<open>nullptr\<close> for a payload it does not find; the tree deletes
  its root, is empty afterwards and returns \<^verbatim>\<open>true\<close>.
\<close>

theorem remove_unmatched_payload_returns_true:
  "tree_remove (8 + j) False (box1 (0, 0)) (Some (Leaf (0, 1) (1::nat))) (0, 1) 3
     = ok (True, Some (Leaf (0, 1) 1))
   \<and> run_ops (8 + j) False (box1 (0, 0)) [Insert (0, 1) (1::nat), Insert (2, 3) 2] AABBTree
     = ok (Some (InnerNode (0, 3) (Some (Leaf (0, 1) 1)) (Some (Leaf (2, 3) 2)) 2))
   \<and> tree_remove (8 + j) False (box1 (0, 0))
       (Some (InnerNode (0, 3) (Some (Leaf (0, 1) (1::nat))) (Some (Leaf (2, 3) 2)) 2)) (0, 1) 3
     = ok (True, None)"
  (is "tree_remove _ _ ?P ?t1 ?b ?d = ?r1 \<and> run_ops _ _ _ ?ops ?t0 = ?r2
       \<and> tree_remove _ _ _ ?t2 _ _ = ?r3")
proof -
  have "tree_remove 8 False ?P ?t1 ?b ?d = ?r1"
    by code_simp
  then have a: "tree_remove (8 + j) False ?P ?t1 ?b ?d = ?r1"
    unfolding ok_def by (rule tree_remove_more_fuel)
  have "run_ops 8 False ?P ?ops ?t0 = ?r2"
    by code_simp
  then have b: "run_ops (8 + j) False ?P ?ops ?t0 = ?r2"
    unfolding ok_def by (rule run_ops_more_fuel)
  have "tree_remove 8 False ?P ?t2 ?b ?d = ?r3"
    by code_simp
  then have c: "tree_remove (8 + j) False ?P ?t2 ?b ?d = ?r3"
    unfolding ok_def by (rule tree_remove_more_fuel)
  from a b c show ?thesis
    by simp
qed

text \<open>
  Claim C2, at an input where the code departs from it. Ten inserts into the
  empty tree leave a root whose left child has height 2 and whose right child
  has height 4, cached and counted alike: the balance is 2. In a build with
  assertions the tenth insert fails the \<^verbatim>\<open>assert\<close> of \<^verbatim>\<open>AABBTree::insert\<close>.
\<close>

theorem ten_inserts_break_balance:
  "run_ops (20 + j) False (box1 (0, 0))
     [Insert (2, 5) (0::nat), Insert (2, 4) 1, Insert (0, 2) 2, Insert (2, 2) 3,
      Insert (4, 5) 4, Insert (1, 4) 5, Insert (3, 4) 6, Insert (1, 3) 7,
      Insert (1, 5) 8, Insert (2, 5) 9] AABBTree
   = ok (Some (InnerNode (0, 5)
       (Some (InnerNode (0, 2) (Some (Leaf (2, 2) 3)) (Some (Leaf (0, 2) 2)) 2))
       (Some (InnerNode (1, 5)
         (Some (InnerNode (2, 4) (Some (Leaf (2, 4) 1)) (Some (Leaf (3, 4) 6)) 2))
         (Some (InnerNode (1, 5)
           (Some (InnerNode (1, 5) (Some (Leaf (2, 5) 0)) (Some (Leaf (1, 5) 8)) 2))
           (Some (Leaf (4, 5) 4)) 3)) 4)) 6))
   \<and> run_ops (20 + j) True (box1 (0, 0))
     [Insert (2, 5) (0::nat), Insert (2, 4) 1, Insert (0, 2) 2, Insert (2, 2) 3,
      Insert (4, 5) 4, Insert (1, 4) 5, Insert (3, 4) 6, Insert (1, 3) 7,
      Insert (1, 5) 8, Insert (2, 5) 9] AABBTree
   = fail AssertionFailure
   \<and> balance (InnerNode (0, 5)
       (Some (InnerNode (0, 2) (Some (Leaf (2, 2) (3::nat))) (Some (Leaf (0, 2) 2)) 2))
       (Some (InnerNode (1, 5)
         (Some (InnerNode (2, 4) (Some (Leaf (2, 4) 1)) (Some (Leaf (3, 4) 6)) 2))
         (Some (InnerNode (1, 5)
           (Some (InnerNode (1, 5) (Some (Leaf (2, 5) 0)) (Some (Leaf (1, 5) 8)) 2))
           (Some (Leaf (4, 5) 4)) 3)) 4)) 6 :: (int \<times> int, nat) node) = ok 2
   \<and> \<not> balance_bound (InnerNode (0, 5)
       (Some (InnerNode (0, 2) (Some (Leaf (2, 2) (3::nat))) (Some (Leaf (0, 2) 2)) 2))
       (Some (InnerNode (1, 5)
         (Some (InnerNode (2, 4) (Some (Leaf (2, 4) 1)) (Some (Leaf (3, 4) 6)) 2))
         (Some (InnerNode (1, 5)
           (Some (InnerNode (1, 5) (Some (Leaf (2, 5) 0)) (Some (Leaf (1, 5) 8)) 2))
           (Some (Leaf (4, 5) 4)) 3)) 4)) 6 :: (int \<times> int, nat) node)"
  (is "run_ops _ _ ?P ?ops ?t0 = ?r1 \<and> run_ops _ _ _ _ _ = ?r2 \<and> ?rest")
proof -
  have "run_ops 20 False ?P ?ops ?t0 = ?r1"
    by code_simp
  then have a: "run_ops (20 + j) False ?P ?ops ?t0 = ?r1"
    unfolding ok_def by (rule run_ops_more_fuel)
  have "run_ops 20 True ?P ?ops ?t0 = ?r2"
    by code_simp
  then have b: "run_ops (20 + j) True ?P ?ops ?t0 = ?r2"
    unfolding fail_def by (rule run_ops_more_fuel)
  have c: "?rest"
    by code_simp
  from a b c show ?thesis
    by simp
qed

text \<open>
  Claim C3, at an input where the code departs from it. After six inserts the
  root has the bounds \<open>[0,5]\<close> while its children have the bounds \<open>[2,4]\<close> and
  \<open>[2,5]\<close>, whose merge is \<open>[2,5]\<close>. The leaf \<open>([2,4], 0)\<close> is in the tree twice, and
  the leaves \<open>([0,3], 4)\<close> and \<open>([4,4], 5)\<close> are in it no more.
\<close>

theorem six_inserts_break_bounds:
  "run_ops (20 + j) False (box1 (0, 0))
     [Insert (2, 4) (0::nat), Insert (2, 5) 1, Insert (2, 3) 2, Insert (3, 5) 3,
      Insert (0, 3) 4, Insert (4, 4) 5] AABBTree
   = ok (Some (InnerNode (0, 5)
       (Some (InnerNode (2, 4) (Some (Leaf (2, 3) 2)) (Some (Leaf (2, 4) 0)) 2))
       (Some (InnerNode (2, 5)
         (Some (InnerNode (2, 5) (Some (Leaf (2, 5) 1)) (Some (Leaf (2, 4) 0)) 2))
         (Some (Leaf (3, 5) 3)) 3)) 5))
   \<and> \<not> bounds_correct (box1 (0, 0)) (InnerNode (0, 5)
       (Some (InnerNode (2, 4) (Some (Leaf (2, 3) (2::nat))) (Some (Leaf (2, 4) 0)) 2))
       (Some (InnerNode (2, 5)
         (Some (InnerNode (2, 5) (Some (Leaf (2, 5) 1)) (Some (Leaf (2, 4) 0)) 2))
         (Some (Leaf (3, 5) 3)) 3)) 5)
   \<and> leaves (InnerNode (0, 5)
       (Some (InnerNode (2, 4) (Some (Leaf (2, 3) (2::nat))) (Some (Leaf (2, 4) 0)) 2))
       (Some (InnerNode (2, 5)
         (Some (InnerNode (2, 5) (Some (Leaf (2, 5) 1)) (Some (Leaf (2, 4) 0)) 2))
         (Some (Leaf (3, 5) 3)) 3)) 5 :: (int \<times> int, nat) node)
     = [((2, 3), 2), ((2, 4), 0), ((2, 5), 1), ((2, 4), 0), ((3, 5), 3)]"
  (is "run_ops _ _ ?P ?ops ?t0 = ?r1 \<and> ?rest")
proof -
  have "run_ops 20 False ?P ?ops ?t0 = ?r1"
    by code_simp
  then have a: "run_ops (20 + j) False ?P ?ops ?t0 = ?r1"
    unfolding ok_def by (rule run_ops_more_fuel)
  have b: "?rest"
    by code_simp
  from a b show ?thesis
    by simp
qed

text \<open>
  Claim C4, at the input where the code departs from it. After the inserts of
  \<open>[0,1]\<close>, \<open>[2,3]\<close>, \<open>[10,11]\<close> and \<open>[10,11]\<close> the fourth insert has rebalanced the
  root: both children have height 2, and the root still caches the height 4 it
  computed before \<^verbatim>\<open>rebalance()\<close> moved a leaf, not \<open>1 + max 2 2\<close>; \<^verbatim>\<open>height()\<close> of
  the tree returns 4.
\<close>

theorem rebalance_leaves_stale_height:
  "run_ops (8 + j) False (box1 (0, 0))
     [Insert (0, 1) (1::nat), Insert (2, 3) 2, Insert (10, 11) 3, Insert (10, 11) 4] AABBTree
   = ok (Some (InnerNode (0, 11)
       (Some (InnerNode (0, 3) (Some (Leaf (0, 1) 1)) (Some (Leaf (2, 3) 2)) 2))
       (Some (InnerNode (10, 11) (Some (Leaf (10, 11) 3)) (Some (Leaf (10, 11) 4)) 2)) 4))
   \<and> \<not> height_correct (InnerNode (0, 11)
       (Some (InnerNode (0, 3) (Some (Leaf (0, 1) (1::nat))) (Some (Leaf (2, 3) 2)) 2))
       (Some (InnerNode (10, 11) (Some (Leaf (10, 11) 3)) (Some (Leaf (10, 11) 4)) 2)) 4 :: (int \<times> int, nat) node)
   \<and> tree_height (Some (InnerNode (0, 11)
       (Some (InnerNode (0, 3) (Some (Leaf (0, 1) (1::nat))) (Some (Leaf (2, 3) 2)) 2))
       (Some (InnerNode (10, 11) (Some (Leaf (10, 11) 3)) (Some (Leaf (10, 11) 4)) 2)) 4
         :: (int \<times> int, nat) node)) = 4"
  (is "run_ops _ _ ?P ?ops ?t0 = ?r1 \<and> ?rest")
proof -
  have "run_ops 8 False ?P ?ops ?t0 = ?r1"
    by code_simp
  then have a: "run_ops (8 + j) False ?P ?ops ?t0 = ?r1"
    unfolding ok_def by (rule run_ops_more_fuel)
  have b: "?rest"
    by code_simp
  from a b show ?thesis
    by simp
qed

text \<open>
  Claim C5, at an input where the code departs from it. The inserts of \<open>[0,1]\<close>,
  \<open>[2,3]\<close>, \<open>[10,11]\<close> and \<open>[-10,-9]\<close> build a tree of four leaves that satisfies I1,
  I2 and I3. Inserting \<open>([0,1], 5)\<close> puts the new leaf three levels below the
  root; removing \<open>([0,1], 5)\<close> then returns \<^verbatim>\<open>true\<close> and leaves the tree empty.
\<close>

theorem insert_remove_round_trip_empties_tree:
  "run_ops (8 + j) False (box1 (0, 0))
     [Insert (0, 1) (1::nat), Insert (2, 3) 2, Insert (10, 11) 3, Insert (- 10, - 9) 4] AABBTree
   = ok (Some (InnerNode (- 10, 11)
       (Some (InnerNode (- 10, 1) (Some (Leaf (0, 1) 1)) (Some (Leaf (- 10, - 9) 4)) 2))
       (Some (InnerNode (2, 11) (Some (Leaf (2, 3) 2)) (Some (Leaf (10, 11) 3)) 2)) 3))
   \<and> tree_insert (8 + j) False (box1 (0, 0))
       (Some (InnerNode (- 10, 11)
         (Some (InnerNode (- 10, 1) (Some (Leaf (0, 1) (1::nat))) (Some (Leaf (- 10, - 9) 4)) 2))
         (Some (InnerNode (2, 11) (Some (Leaf (2, 3) 2)) (Some (Leaf (10, 11) 3)) 2)) 3))
       (0, 1) 5
     = ok (Some (InnerNode (- 10, 11)
         (Some (InnerNode (- 10, 1)
           (Some (InnerNode (0, 1) (Some (Leaf (0, 1) 1)) (Some (Leaf (0, 1) 5)) 2))
           (Some (Leaf (- 10, - 9) 4)) 3))
         (Some (InnerNode (2, 11) (Some (Leaf (2, 3) 2)) (Some (Leaf (10, 11) 3)) 2)) 4))
   \<and> tree_remove (8 + j) False (box1 (0, 0))
       (Some (InnerNode (- 10, 11)
         (Some (InnerNode (- 10, 1)
           (Some (InnerNode (0, 1) (Some (Leaf (0, 1) (1::nat))) (Some (Leaf (0, 1) 5)) 2))
           (Some (Leaf (- 10, - 9) 4)) 3))
         (Some (InnerNode (2, 11) (Some (Leaf (2, 3) 2)) (Some (Leaf (10, 11) 3)) 2)) 4))
       (0, 1) 5
     = ok (True, None)
   \<and> bounds_correct (box1 (0, 0)) (InnerNode (- 10, 11)
       (Some (InnerNode (- 10, 1) (Some (Leaf (0, 1) (1::nat))) (Some (Leaf (- 10, - 9) 4)) 2))
       (Some (InnerNode (2, 11) (Some (Leaf (2, 3) 2)) (Some (Leaf (10, 11) 3)) 2)) 3)
   \<and> height_correct (InnerNode (- 10, 11)
       (Some (InnerNode (- 10, 1) (Some (Leaf (0, 1) (1::nat))) (Some (Leaf (- 10, - 9) 4)) 2))
       (Some (InnerNode (2, 11) (Some (Leaf (2, 3) 2)) (Some (Leaf (10, 11) 3)) 2)) 3 :: (int \<times> int, nat) node)
   \<and> balance_bound (InnerNode (- 10, 11)
       (Some (InnerNode (- 10, 1) (Some (Leaf (0, 1) (1::nat))) (Some (Leaf (- 10, - 9) 4)) 2))
       (Some (InnerNode (2, 11) (Some (Leaf (2, 3) 2)) (Some (Leaf (10, 11) 3)) 2)) 3 :: (int \<times> int, nat) node)
   \<and> length (leaves (InnerNode (- 10, 11)
       (Some (InnerNode (- 10, 1) (Some (Leaf (0, 1) (1::nat))) (Some (Leaf (- 10, - 9) 4)) 2))
       (Some (InnerNode (2, 11) (Some (Leaf (2, 3) 2)) (Some (Leaf (10, 11) 3)) 2)) 3 :: (int \<times> int, nat) node)) = 4"
  (is "run_ops _ _ ?P ?ops ?t0 = ?r1 \<and> tree_insert _ _ _ ?t4 ?b ?d = ?r2
       \<and> tree_remove _ _ _ ?t5 _ _ = ?r3 \<and> ?rest")
proof -
  have "run_ops 8 False ?P ?ops ?t0 = ?r1"
    by code_simp
  then have a: "run_ops (8 + j) False ?P ?ops ?t0 = ?r1"
    unfolding ok_def by (rule run_ops_more_fuel)
  have "tree_insert 8 False ?P ?t4 ?b ?d = ?r2"
    by code_simp
  then have b: "tree_insert (8 + j) False ?P ?t4 ?b ?d = ?r2"
    unfolding ok_def by (rule tree_insert_more_fuel)
  have "tree_remove 8 False ?P ?t5 ?b ?d = ?r3"
    by code_simp
  then have c: "tree_remove (8 + j) False ?P ?t5 ?b ?d = ?r3"
    unfolding ok_def by (rule tree_remove_more_fuel)
  have d: "?rest"
    by code_simp
  from a b c d show ?thesis
    by simp
qed

text \<open>
  Claim C6. On a non-empty tree, \<^verbatim>\<open>remove\<close> with a box that the bounds of the root do
  not contain returns \<^verbatim>\<open>false\<close> and leaves the tree as it is, whatever the payload
  and in either build.
\<close>

theorem remove_outside_root_bounds:
  "\<not> box_contains P (bounds r) b \<Longrightarrow> tree_remove k dbg P (Some r) b d = ok (False, Some r)"
  by (simp add: tree_remove_def)

text \<open>The tree with the leaves \<open>[0,1]\<close> and \<open>[2,3]\<close>, asked to remove the box \<open>[10,11]\<close>.\<close>

theorem remove_outside_root_bounds_witness:
  "\<not> box_contains (box1 (0, 0))
       (bounds (InnerNode (0, 3) (Some (Leaf (0, 1) (1::nat))) (Some (Leaf (2, 3) 2)) 2)) (10, 11)
   \<and> tree_remove 8 True (box1 (0, 0))
       (Some (InnerNode (0, 3) (Some (Leaf (0, 1) (1::nat))) (Some (Leaf (2, 3) 2)) 2)) (10, 11) 2
     = ok (False, Some (InnerNode (0, 3) (Some (Leaf (0, 1) 1)) (Some (Leaf (2, 3) 2)) 2))"
proof -
  have h: "\<not> box_contains (box1 (0, 0))
       (bounds (InnerNode (0, 3) (Some (Leaf (0, 1) (1::nat))) (Some (Leaf (2, 3) 2)) 2)) (10, 11)"
    by (simp add: box1_def)
  show ?thesis
    using h remove_outside_root_bounds [OF h, of 8 True 2] by simp
qed

text \<open>
  Claim C7. At an inner node with the children \<open>l\<close> and \<open>r\<close>, \<^verbatim>\<open>insert\<close> of the box
  \<open>b\<close> recurses into \<open>l\<close> when the volume increase of \<open>l\<close> is smaller than or equal
  to that of \<open>r\<close>, and into \<open>r\<close> when that of \<open>r\<close> is smaller; the other child is
  the one it had when bounds and height are updated and \<^verbatim>\<open>rebalance()\<close> runs. The
  inner node is any, so this holds at each level of the descent.
\<close>

theorem insert_descends_into_least_increaser:
  fixes P :: "('b, 'v::{order,minus}, 'u) params"
  shows
  "(volume_increase P l b < volume_increase P r b \<or>
    volume_increase P l b = volume_increase P r b \<longrightarrow>
      node_insert (Suc k) P (InnerNode bb (Some l) (Some r) h) b d =
        bindR (node_insert k P l b d) (\<lambda>l'.
        bindR (updateBounds P (InnerNode bb (Some l') (Some r) h)) (\<lambda>n1.
        bindR (updateHeight n1) (\<lambda>n2. rebalance k P n2))))
   \<and> (volume_increase P r b < volume_increase P l b \<longrightarrow>
      node_insert (Suc k) P (InnerNode bb (Some l) (Some r) h) b d =
        bindR (node_insert k P r b d) (\<lambda>r'.
        bindR (updateBounds P (InnerNode bb (Some l) (Some r') h)) (\<lambda>n1.
        bindR (updateHeight n1) (\<lambda>n2. rebalance k P n2))))"
  by (auto simp add: volume_increase_def selectLeastIncreaser_def Let_def bindR_ok deref_Some)

text \<open>The three cases at the root with the leaves \<open>[0,1]\<close> and \<open>[2,3]\<close>: the box \<open>[0,2]\<close>
  increases the left leaf by 1 and the right leaf by 2, the box \<open>[1,2]\<close> increases
  both by 1, and the box \<open>[10,11]\<close> increases the left leaf by 10 and the right
  leaf by 8.\<close>

theorem insert_descends_into_least_increaser_witness:
  "volume_increase (box1 (0, 0)) (Leaf (0, 1) (1::nat)) (0, 2)
     < volume_increase (box1 (0, 0)) (Leaf (2, 3) (2::nat)) (0, 2)
   \<and> node_insert 3 (box1 (0, 0))
       (InnerNode (0, 3) (Some (Leaf (0, 1) (1::nat))) (Some (Leaf (2, 3) 2)) 2) (0, 2) 3
     = ok (InnerNode (0, 3)
         (Some (InnerNode (0, 2) (Some (Leaf (0, 1) 1)) (Some (Leaf (0, 2) 3)) 2))
         (Some (Leaf (2, 3) 2)) 3)
   \<and> volume_increase (box1 (0, 0)) (Leaf (0, 1) (1::nat)) (1, 2)
     = volume_increase (box1 (0, 0)) (Leaf (2, 3) (2::nat)) (1, 2)
   \<and> node_insert 3 (box1 (0, 0))
       (InnerNode (0, 3) (Some (Leaf (0, 1) (1::nat))) (Some (Leaf (2, 3) 2)) 2) (1, 2) 3
     = ok (InnerNode (0, 3)
         (Some (InnerNode (0, 2) (Some (Leaf (0, 1) 1)) (Some (Leaf (1, 2) 3)) 2))
         (Some (Leaf (2, 3) 2)) 3)
   \<and> volume_increase (box1 (0, 0)) (Leaf (2, 3) (2::nat)) (10, 11)
     < volume_increase (box1 (0, 0)) (Leaf (0, 1) (1::nat)) (10, 11)
   \<and> node_insert 3 (box1 (0, 0))
       (InnerNode (0, 3) (Some (Leaf (0, 1) (1::nat))) (Some (Leaf (2, 3) 2)) 2) (10, 11) 3
     = ok (InnerNode (0, 11)
         (Some (Leaf (0, 1) 1))
         (Some (InnerNode (2, 11) (Some (Leaf (2, 3) 2)) (Some (Leaf (10, 11) 3)) 2)) 3)"
proof -
  have less: "volume_increase (box1 (0, 0)) (Leaf (0, 1) (1::nat)) (0, 2)
     < volume_increase (box1 (0, 0)) (Leaf (2, 3) (2::nat)) (0, 2)"
    by (simp add: volume_increase_def box1_def)
  have tie: "volume_increase (box1 (0, 0)) (Leaf (0, 1) (1::nat)) (1, 2)
     = volume_increase (box1 (0, 0)) (Leaf (2, 3) (2::nat)) (1, 2)"
    by (simp add: volume_increase_def box1_def)
  have greater: "volume_increase (box1 (0, 0)) (Leaf (2, 3) (2::nat)) (10, 11)
     < volume_increase (box1 (0, 0)) (Leaf (0, 1) (1::nat)) (10, 11)"
    by (simp add: volume_increase_def box1_def)
  note step = insert_descends_into_least_increaser
    [where P = "box1 (0, 0)" and l = "Leaf (0, 1) (1::nat)" and r = "Leaf (2, 3) (2::nat)"
       and k = 2 and bb = "(0, 3)" and h = 2 and d = 3]
  have three: "(3::nat) = Suc 2"
    by simp
  have a: "node_insert 3 (box1 (0, 0))
       (InnerNode (0, 3) (Some (Leaf (0, 1) (1::nat))) (Some (Leaf (2, 3) 2)) 2) (0, 2) 3
     = ok (InnerNode (0, 3)
         (Some (InnerNode (0, 2) (Some (Leaf (0, 1) 1)) (Some (Leaf (0, 2) 3)) 2))
         (Some (Leaf (2, 3) 2)) 3)"
    unfolding three using less step [of "(0, 2)"]
    by (simp add: run_simps)
  have b: "node_insert 3 (box1 (0, 0))
       (InnerNode (0, 3) (Some (Leaf (0, 1) (1::nat))) (Some (Leaf (2, 3) 2)) 2) (1, 2) 3
     = ok (InnerNode (0, 3)
         (Some (InnerNode (0, 2) (Some (Leaf (0, 1) 1)) (Some (Leaf (1, 2) 3)) 2))
         (Some (Leaf (2, 3) 2)) 3)"
    unfolding three using tie step [of "(1, 2)"]
    by (simp add: run_simps)
  have c: "node_insert 3 (box1 (0, 0))
       (InnerNode (0, 3) (Some (Leaf (0, 1) (1::nat))) (Some (Leaf (2, 3) 2)) 2) (10, 11) 3
     = ok (InnerNode (0, 11)
         (Some (Leaf (0, 1) 1))
         (Some (InnerNode (2, 11) (Some (Leaf (2, 3) 2)) (Some (Leaf (10, 11) 3)) 2)) 3)"
    unfolding three using greater step [of "(10, 11)"]
    by (simp add: run_simps)
  from less tie greater a b c show ?thesis
    by blast
qed

text \<open>
  Claim C8. Starting from the empty tree, the inserts of \<open>([0,1], a)\<close>,
  \<open>([2,3], b)\<close> and \<open>([10,11], c)\<close> give a tree of height 3, between 2 and 3, with
  the root bounds \<open>[0,11]\<close>; removing \<open>([2,3], b)\<close> then returns \<^verbatim>\<open>true\<close> and leaves
  the root bounds \<open>[0,11]\<close> and the height 2. This holds in either build, for
  any payloads and for any fuel from 5 on.
\<close>

theorem scenario_three_boxes:
  "(let P = box1 nb;
        T3 = Some (InnerNode (0, 11) (Some (Leaf (0, 1) a))
               (Some (InnerNode (2, 11) (Some (Leaf (2, 3) b)) (Some (Leaf (10, 11) c)) 2)) 3);
        T2 = Some (InnerNode (0, 11) (Some (Leaf (0, 1) a)) (Some (Leaf (10, 11) c)) 2)
    in run_ops (5 + k) dbg P [Insert (0, 1) a, Insert (2, 3) b, Insert (10, 11) c] AABBTree = ok T3
       \<and> 2 \<le> tree_height T3 \<and> tree_height T3 \<le> 3
       \<and> tree_bounds dbg P T3 = Inr (0, 11)
       \<and> tree_remove (5 + k) dbg P T3 (2, 3) b = ok (True, T2)
       \<and> tree_bounds dbg P T2 = Inr (0, 11)
       \<and> tree_height T2 = 2)"
  by (simp add: run_simps)

text \<open>
  Claim C9 as stated fails in a build that keeps assertions: there \<^verbatim>\<open>bounds()\<close> on
  the empty tree stops at \<^verbatim>\<open>assert(!empty())\<close> and returns no box.
\<close>

theorem bounds_of_empty_tree_asserts:
  "tree_bounds True (box1 (0, 0) :: (int \<times> int, int, nat) params) AABBTree
     = Inl AssertionFailure"
  by (simp add: run_simps)

text \<open>
  Claim C9, amended. The freshly constructed tree is empty and has height 0;
  \<^verbatim>\<open>bounds()\<close> on it returns the box made of NaN when assertions are compiled out
  and fails the assertion otherwise. Removing the only leaf of a tree (the box
  is contained in the bounds of the leaf and the payload is equal under
  \<^verbatim>\<open>EQ\<close>) returns \<^verbatim>\<open>true\<close> and gives that empty tree again.
\<close>

theorem empty_tree_behaviour:
  "empty (AABBTree :: ('b, 'u) tree)
   \<and> tree_height (AABBTree :: ('b, 'u) tree) = 0
   \<and> tree_bounds False P (AABBTree :: ('b, 'u) tree) = Inr (nan_box P)
   \<and> tree_bounds True P (AABBTree :: ('b, 'u) tree) = Inl AssertionFailure
   \<and> (box_contains P lb b \<and> data_eq P d ld \<longrightarrow>
        tree_remove (Suc k) dbg P (Some (Leaf lb ld)) b d = ok (True, AABBTree))"
  by (simp add: run_simps)

text \<open>The tree with the single leaf \<open>([0,1], 1)\<close>, which is removed.\<close>

theorem empty_tree_behaviour_witness:
  "box_contains (box1 (7, 7)) (0, 1) (0, 1) \<and> data_eq (box1 (7, 7)) (1::nat) 1
   \<and> tree_remove (Suc 0) True (box1 (7, 7)) (Some (Leaf (0, 1) (1::nat))) (0, 1) 1
       = ok (True, AABBTree)
   \<and> empty (AABBTree :: (int \<times> int, nat) tree)
   \<and> tree_height (AABBTree :: (int \<times> int, nat) tree) = 0
   \<and> tree_bounds False (box1 (7, 7) :: (int \<times> int, int, nat) params) AABBTree = Inr (7, 7)"
proof -
  have h: "box_contains (box1 (7, 7)) (0, 1) (0, 1) \<and> data_eq (box1 (7, 7)) (1::nat) 1"
    by (simp add: box1_def)
  show ?thesis
    using h empty_tree_behaviour
      [where P = "box1 (7, 7) :: (int \<times> int, int, nat) params" and lb = "(0, 1)"
         and b = "(0, 1)" and d = 1 and ld = 1 and k = 0 and dbg = True]
    by (simp add: box1_def)
qed




end
